theory Spec2Isabelle
  imports Complex_Main "HOL-Library.Char_ord"
begin

section \<open>The JSON engine of github_stats.c\<close>

text \<open>
  The embedding follows \<^verbatim>\<open>src/c/src/github_stats.c\<close>, lines 13 to 466: the value tree, the
  recursive-descent parser with its latched error slot, and the accessors.

  A C string is a \<open>string\<close> (a list of bytes); the terminating NUL is the end of the list.
  A NUL byte inside the list ends the C string too: every read of the cursor treats it as
  the terminator, so the bytes behind it are never reached, as in C.
\<close>

abbreviation NUL :: char where "NUL \<equiv> CHR 0x00"
abbreviation DQUOTE :: char where "DQUOTE \<equiv> CHR 0x22"
abbreviation SQUOTE :: char where "SQUOTE \<equiv> CHR 0x27"
abbreviation BACKSLASH :: char where "BACKSLASH \<equiv> CHR 0x5C"

definition c_str :: "string \<Rightarrow> string" where
  "c_str s = takeWhile (\<lambda>c. c \<noteq> NUL) s"

text \<open>
  \<^verbatim>\<open>strncmp(a, b, n) == 0\<close>: at most \<open>n\<close> bytes are compared, and the comparison stops at
  the end of either C string. \<^verbatim>\<open>strlen\<close> counts the bytes of the C string.
\<close>

definition strncmp_eq :: "string \<Rightarrow> string \<Rightarrow> nat \<Rightarrow> bool" where
  "strncmp_eq a b n = (take n (c_str a) = take n (c_str b))"

definition strlen :: "string \<Rightarrow> nat" where
  "strlen s = length (c_str s)"

subsection \<open>The value tree\<close>

text \<open>
  \<^verbatim>\<open>struct JsonValue\<close>: the tag and the union become one datatype. The number payload is a
  C \<open>double\<close>; its type is the parameter \<open>'n\<close>, and the conversion \<^verbatim>\<open>strtod\<close> of the C
  library is a parameter of the parser. \<^verbatim>\<open>as.boolean\<close> is a C \<open>int\<close>. An object is the
  sequence of its (key, value) entries in insertion order; a key is a \<^verbatim>\<open>char *\<close> that is
  NULL (\<open>None\<close>) when the literal of the key failed to parse. \<^verbatim>\<open>as.string\<close> is never
  NULL: \<^verbatim>\<open>json_parse_value\<close>, the only place that builds a string value, returns NULL
  itself when the literal is NULL. The capacities of the growable arrays are not modelled.
\<close>

datatype JsonType = JSON_NULL | JSON_BOOL | JSON_NUMBER | JSON_STRING | JSON_ARRAY | JSON_OBJECT

datatype 'n JsonValue =
    JNull
  | JBool int
  | JNumber 'n
  | JString string
  | JArray "'n JsonValue list"
  | JObject "(string option \<times> 'n JsonValue) list"

fun json_type :: "'n JsonValue \<Rightarrow> JsonType" where
  "json_type JNull = JSON_NULL"
| "json_type (JBool b) = JSON_BOOL"
| "json_type (JNumber x) = JSON_NUMBER"
| "json_type (JString s) = JSON_STRING"
| "json_type (JArray xs) = JSON_ARRAY"
| "json_type (JObject es) = JSON_OBJECT"

subsection \<open>The parser state and its error slot\<close>

text \<open>
  \<^verbatim>\<open>JsonParser\<close>: \<open>cur\<close> is the input from the cursor on, \<open>error\<close> the content of the
  128-byte error buffer as a C string (empty when \<^verbatim>\<open>error[0]\<close> is NUL).
\<close>

record JsonParser =
  start :: string
  cur :: string
  error :: string

text \<open>
  \<^verbatim>\<open>snprintf(parser->error, 128, "%s near %.32s", message, parser->cur)\<close>, only when the
  slot is empty: at most 127 bytes are stored, and \<^verbatim>\<open>%.32s\<close> prints at most 32 bytes of the
  C string at the cursor.
\<close>

definition json_error :: "JsonParser \<Rightarrow> string \<Rightarrow> JsonParser" where
  "json_error p message =
     (if error p = [] then p\<lparr>error := take 127 (message @ '' near '' @ take 32 (c_str (cur p)))\<rparr>
      else p)"

definition json_peek :: "JsonParser \<Rightarrow> char" where
  "json_peek p = (case cur p of [] \<Rightarrow> NUL | c # cs \<Rightarrow> c)"

definition json_next :: "JsonParser \<Rightarrow> char \<times> JsonParser" where
  "json_next p =
     (case cur p of
        [] \<Rightarrow> (NUL, p)
      | c # cs \<Rightarrow> if c = NUL then (NUL, p) else (c, p\<lparr>cur := cs\<rparr>))"

definition json_expect :: "JsonParser \<Rightarrow> char \<Rightarrow> JsonParser" where
  "json_expect p ch =
     (let (c, p1) = json_next p in
      if c \<noteq> ch then json_error p1 (''Expected '' @ [SQUOTE, ch, SQUOTE]) else p1)"

fun skip_ws_chars :: "string \<Rightarrow> string" where
  "skip_ws_chars [] = []"
| "skip_ws_chars (c # cs) =
     (if c = CHR '' '' \<or> c = CHR 0x0A \<or> c = CHR 0x0D \<or> c = CHR 0x09 then skip_ws_chars cs
      else c # cs)"

definition json_skip_ws :: "JsonParser \<Rightarrow> JsonParser" where
  "json_skip_ws p = p\<lparr>cur := skip_ws_chars (cur p)\<rparr>"

subsection \<open>String literals\<close>

text \<open>
  The labels of the \<^verbatim>\<open>switch\<close> that resolve to one byte: the quote, the backslash and the
  slash stand for themselves, \<open>b f n r t\<close> for the control bytes 8, 12, 10, 13, 9. Every
  other character but \<open>u\<close> is the \<^verbatim>\<open>default\<close> label.
\<close>

definition escape_byte :: "char \<Rightarrow> char option" where
  "escape_byte ch =
     (if ch = DQUOTE \<or> ch = BACKSLASH \<or> ch = CHR ''/'' then Some ch
      else if ch = CHR ''b'' then Some (CHR 0x08)
      else if ch = CHR ''f'' then Some (CHR 0x0C)
      else if ch = CHR ''n'' then Some (CHR 0x0A)
      else if ch = CHR ''r'' then Some (CHR 0x0D)
      else if ch = CHR ''t'' then Some (CHR 0x09)
      else None)"

lemma json_next_length: "length (cur (snd (json_next p))) \<le> length (cur p)"
  by (simp add: json_next_def split: list.splits)

lemma json_next_shorter:
  "json_peek p \<noteq> NUL \<Longrightarrow> length (cur (snd (json_next p))) < length (cur p)"
  by (simp add: json_next_def json_peek_def split: list.splits)

text \<open>
  The \<^verbatim>\<open>while\<close> loop of \<^verbatim>\<open>json_parse_string_literal\<close> and the code behind it; \<open>buf\<close> is
  \<^verbatim>\<open>buffer[0..length)\<close>. The result is the buffer, or \<open>None\<close> for NULL.
\<close>

function string_literal_loop :: "JsonParser \<Rightarrow> string \<Rightarrow> string option \<times> JsonParser" where
  "string_literal_loop p buf =
     (if json_peek p \<noteq> NUL \<and> json_peek p \<noteq> DQUOTE then
        (let ch = fst (json_next p); p1 = snd (json_next p) in
         if ch = BACKSLASH then
           (let ch2 = fst (json_next p1); p2 = snd (json_next p1) in
            if ch2 = NUL then (None, json_error p2 ''Unterminated escape sequence'')
            else if ch2 = CHR ''u'' then
              (let c1 = fst (json_next p2); p3 = snd (json_next p2);
                   c2 = fst (json_next p3); p4 = snd (json_next p3);
                   c3 = fst (json_next p4); p5 = snd (json_next p4);
                   c4 = fst (json_next p5); p6 = snd (json_next p5)
               in string_literal_loop p6 (buf @ [BACKSLASH, CHR ''u'', c1, c2, c3, c4]))
            else
              (case escape_byte ch2 of
                 None \<Rightarrow> (None, json_error p2 ''Invalid escape sequence'')
               | Some b \<Rightarrow> string_literal_loop p2 (buf @ [b])))
         else string_literal_loop p1 (buf @ [ch]))
      else if json_peek p \<noteq> DQUOTE then (None, json_error p ''Unterminated string literal'')
      else (Some buf, json_expect p DQUOTE))"
  by pat_completeness auto
termination
proof (relation "measure (\<lambda>(p, buf). length (cur p))")
  show "wf (measure (\<lambda>(p, buf). length (cur p)))" by simp
next
  fix p :: JsonParser and buf :: string
  assume "json_peek p \<noteq> NUL \<and> json_peek p \<noteq> DQUOTE"
  then have less: "length (cur (snd (json_next p))) < length (cur p)"
    by (simp add: json_next_shorter)
  have step: "\<And>q. length (cur (snd (json_next q))) \<le> length (cur q)"
    by (rule json_next_length)
  {
    fix x xa xb xc xd xe xf xg xh xi xj xk
    assume "xa = snd (json_next p)" "xc = snd (json_next xa)" "xe = snd (json_next xc)"
      "xg = snd (json_next xe)" "xi = snd (json_next xg)" "xk = snd (json_next xi)"
    then show "((xk, buf @ [BACKSLASH, CHR ''u'', xd, xf, xh, xj]), p, buf)
        \<in> measure (\<lambda>(p, buf). length (cur p))"
      using less step[of xa] step[of xc] step[of xe] step[of xg] step[of xi] by simp
  }
  {
    fix x xa xb xc x2
    assume "xa = snd (json_next p)" "xc = snd (json_next xa)"
    then show "((xc, buf @ [x2]), p, buf) \<in> measure (\<lambda>(p, buf). length (cur p))"
      using less step[of xa] by simp
  }
  {
    fix x xa
    assume "xa = snd (json_next p)"
    then show "((xa, buf @ [x]), p, buf) \<in> measure (\<lambda>(p, buf). length (cur p))"
      using less by simp
  }
qed

definition json_parse_string_literal :: "JsonParser \<Rightarrow> string option \<times> JsonParser" where
  "json_parse_string_literal p = string_literal_loop (json_expect p DQUOTE) []"

declare string_literal_loop.simps [simp del]

text \<open>
  No step of the parser makes the C string at the cursor longer, and a step over a byte
  that is not NUL makes it shorter: the facts behind the termination of the recursive
  descent.
\<close>

lemma cur_json_error [simp]: "cur (json_error p m) = cur p"
  by (simp add: json_error_def)

lemma json_peek_json_error [simp]: "json_peek (json_error p m) = json_peek p"
  by (simp add: json_peek_def)

lemma strlen_Cons: "strlen (c # cs) = (if c = NUL then 0 else Suc (strlen cs))"
  by (simp add: strlen_def c_str_def)

lemma strlen_Nil [simp]: "strlen [] = 0"
  by (simp add: strlen_def c_str_def)

lemma strlen_json_next: "strlen (cur (snd (json_next p))) \<le> strlen (cur p)"
  by (simp add: json_next_def strlen_Cons split: list.splits)

lemma strlen_json_next_less:
  "json_peek p \<noteq> NUL \<Longrightarrow> strlen (cur (snd (json_next p))) < strlen (cur p)"
  by (simp add: json_next_def json_peek_def strlen_Cons split: list.splits)

lemma json_expect_alt:
  "json_expect p ch =
     (if fst (json_next p) \<noteq> ch
      then json_error (snd (json_next p)) (''Expected '' @ [SQUOTE, ch, SQUOTE])
      else snd (json_next p))"
  by (simp add: json_expect_def split: prod.splits)

lemma strlen_json_expect: "strlen (cur (json_expect p ch)) \<le> strlen (cur p)"
  using strlen_json_next [of p] by (simp add: json_expect_alt)

lemma strlen_json_expect_less:
  "json_peek p \<noteq> NUL \<Longrightarrow> strlen (cur (json_expect p ch)) < strlen (cur p)"
  using strlen_json_next_less [of p] by (simp add: json_expect_alt)

lemma strlen_skip_ws_chars: "strlen (skip_ws_chars s) \<le> strlen s"
  by (induction s) (auto simp: strlen_Cons)

lemma strlen_json_skip_ws: "strlen (cur (json_skip_ws p)) \<le> strlen (cur p)"
  by (simp add: json_skip_ws_def strlen_skip_ws_chars)

lemma strlen_json_next_trans:
  "strlen (cur p) \<le> n \<Longrightarrow> strlen (cur (snd (json_next p))) \<le> n"
  using strlen_json_next [of p] by simp

lemma json_next_length_trans:
  "length (cur p) < n \<Longrightarrow> length (cur (snd (json_next p))) < n"
  using json_next_length [of p] by simp

lemma strlen_string_literal_loop:
  "strlen (cur (snd (string_literal_loop p buf))) \<le> strlen (cur p)"
proof (induction "length (cur p)" arbitrary: p buf rule: less_induct)
  case less
  show ?case
  proof (cases "json_peek p \<noteq> NUL \<and> json_peek p \<noteq> DQUOTE")
    case False
    then show ?thesis
      by (subst string_literal_loop.simps) (auto simp add: strlen_json_expect)
  next
    case True
    then have p1: "length (cur (snd (json_next p))) < length (cur p)"
      by (simp add: json_next_shorter)
    have IH: "strlen (cur (snd (string_literal_loop q b))) \<le> strlen (cur p)"
      if "length (cur q) < length (cur p)" "strlen (cur q) \<le> strlen (cur p)" for q b
      using less.hyps [OF that(1), of b] that(2) by simp
    show ?thesis
      using True
      by (subst string_literal_loop.simps)
         (auto simp add: Let_def split: option.splits
               intro!: IH json_next_length_trans p1 strlen_json_next_trans)
  qed
qed

lemma strlen_json_parse_string_literal:
  "strlen (cur (snd (json_parse_string_literal p))) \<le> strlen (cur p)"
  unfolding json_parse_string_literal_def
  by (rule order_trans [OF strlen_string_literal_loop strlen_json_expect])

subsection \<open>Numbers and literals\<close>

text \<open>\<^verbatim>\<open>parser->cur++\<close>, where the byte at the cursor is known not to be NUL.\<close>

definition json_advance :: "JsonParser \<Rightarrow> JsonParser" where
  "json_advance p = p\<lparr>cur := tl (cur p)\<rparr>"

fun skip_digit_chars :: "string \<Rightarrow> string" where
  "skip_digit_chars [] = []"
| "skip_digit_chars (c # cs) =
     (if CHR ''0'' \<le> c \<and> c \<le> CHR ''9'' then skip_digit_chars cs else c # cs)"

text \<open>\<^verbatim>\<open>while (*parser->cur >= '0' && *parser->cur <= '9') parser->cur++\<close>.\<close>

definition json_skip_digits :: "JsonParser \<Rightarrow> JsonParser" where
  "json_skip_digits p = p\<lparr>cur := skip_digit_chars (cur p)\<rparr>"

text \<open>
  \<^verbatim>\<open>json_make_value\<close>: a container starts empty; the payload of a boolean, a number or a
  string is left uninitialised, for the caller to set.
\<close>

definition json_make_value :: "JsonType \<Rightarrow> 'n JsonValue" where
  "json_make_value ty =
     (case ty of
        JSON_NULL \<Rightarrow> JNull
      | JSON_BOOL \<Rightarrow> JBool undefined
      | JSON_NUMBER \<Rightarrow> JNumber undefined
      | JSON_STRING \<Rightarrow> JString undefined
      | JSON_ARRAY \<Rightarrow> JArray []
      | JSON_OBJECT \<Rightarrow> JObject [])"

text \<open>
  \<^verbatim>\<open>json_parse_number\<close>: the scan never fails. The bytes between the old and the new cursor
  are copied and handed to \<^verbatim>\<open>strtod\<close>, whose result is stored whatever the bytes are.
\<close>

definition number_scan :: "JsonParser \<Rightarrow> JsonParser" where
  "number_scan p =
     (let p1 = (if json_peek p = CHR ''-'' then json_advance p else p);
          p2 = json_skip_digits p1;
          p3 = (if json_peek p2 = CHR ''.'' then json_skip_digits (json_advance p2) else p2)
      in if json_peek p3 = CHR ''e'' \<or> json_peek p3 = CHR ''E'' then
           (let p4 = json_advance p3;
                p5 = (if json_peek p4 = CHR ''+'' \<or> json_peek p4 = CHR ''-''
                      then json_advance p4 else p4)
            in json_skip_digits p5)
         else p3)"

definition number_token :: "JsonParser \<Rightarrow> string" where
  "number_token p = take (length (cur p) - length (cur (number_scan p))) (cur p)"

definition json_parse_number :: "(string \<Rightarrow> 'n) \<Rightarrow> JsonParser \<Rightarrow> 'n JsonValue \<times> JsonParser" where
  "json_parse_number strtod p = (JNumber (strtod (number_token p)), number_scan p)"

definition json_parse_literal ::
    "JsonParser \<Rightarrow> string \<Rightarrow> JsonType \<Rightarrow> int \<Rightarrow> 'n JsonValue option \<times> JsonParser" where
  "json_parse_literal p literal ty boolValue =
     (let len = strlen literal in
      if \<not> strncmp_eq (cur p) literal len then (None, json_error p ''Unexpected literal'')
      else (Some (if ty = JSON_BOOL then JBool boolValue else json_make_value ty),
            p\<lparr>cur := drop len (cur p)\<rparr>))"

lemma strlen_json_advance: "json_peek p \<noteq> NUL \<Longrightarrow> strlen (cur (json_advance p)) \<le> strlen (cur p)"
  by (cases "cur p") (simp_all add: json_advance_def json_peek_def strlen_Cons)

lemma strlen_skip_digit_chars: "strlen (skip_digit_chars s) \<le> strlen s"
  by (induction s) (auto simp: strlen_Cons)

lemma strlen_json_skip_digits: "strlen (cur (json_skip_digits p)) \<le> strlen (cur p)"
  by (simp add: json_skip_digits_def strlen_skip_digit_chars)

lemma c_str_drop: "n \<le> length (c_str s) \<Longrightarrow> c_str (drop n s) = drop n (c_str s)"
  unfolding c_str_def
proof (induction s arbitrary: n)
  case Nil
  then show ?case by simp
next
  case (Cons a s)
  then show ?case by (cases n) (auto split: if_splits)
qed

lemma strlen_json_parse_literal:
  "strlen (cur (snd (json_parse_literal p lit ty b))) \<le> strlen (cur p)"
proof (cases "strncmp_eq (cur p) lit (strlen lit)")
  case False
  then show ?thesis by (simp add: json_parse_literal_def)
next
  case True
  then have "take (strlen lit) (c_str (cur p)) = c_str lit"
    by (simp add: strncmp_eq_def strlen_def)
  then have "length (take (strlen lit) (c_str (cur p))) = strlen lit"
    by (simp add: strlen_def)
  then have "strlen lit \<le> length (c_str (cur p))"
    by simp
  then show ?thesis
    using True by (simp add: json_parse_literal_def strlen_def c_str_drop)
qed

lemma strlen_adv_trans:
  "json_peek q \<noteq> NUL \<Longrightarrow> strlen (cur q) \<le> n \<Longrightarrow> strlen (cur (json_advance q)) \<le> n"
  using strlen_json_advance [of q] by simp

lemma strlen_digits_trans:
  "strlen (cur q) \<le> n \<Longrightarrow> strlen (cur (json_skip_digits q)) \<le> n"
  using strlen_json_skip_digits [of q] by simp

lemma strlen_number_scan: "strlen (cur (number_scan p)) \<le> strlen (cur p)"
proof -
  let ?n = "strlen (cur p)"
  define p1 where "p1 = (if json_peek p = CHR ''-'' then json_advance p else p)"
  define p2 where "p2 = json_skip_digits p1"
  define p3 where "p3 = (if json_peek p2 = CHR ''.'' then json_skip_digits (json_advance p2) else p2)"
  define p4 where "p4 = json_advance p3"
  define p5 where "p5 = (if json_peek p4 = CHR ''+'' \<or> json_peek p4 = CHR ''-''
                      then json_advance p4 else p4)"
  have 1: "strlen (cur p1) \<le> ?n"
    by (simp add: p1_def strlen_adv_trans)
  have 2: "strlen (cur p2) \<le> ?n"
    by (simp add: p2_def strlen_digits_trans 1)
  have 3: "strlen (cur p3) \<le> ?n"
    by (simp add: p3_def strlen_digits_trans strlen_adv_trans 2)
  have 4: "strlen (cur p4) \<le> ?n" if "json_peek p3 = CHR ''e'' \<or> json_peek p3 = CHR ''E''"
    using that 3 by (auto simp add: p4_def intro: strlen_adv_trans)
  have 5: "strlen (cur p5) \<le> ?n" if "json_peek p3 = CHR ''e'' \<or> json_peek p3 = CHR ''E''"
    using 4 [OF that] by (auto simp add: p5_def intro: strlen_adv_trans)
  have "number_scan p =
      (if json_peek p3 = CHR ''e'' \<or> json_peek p3 = CHR ''E'' then json_skip_digits p5 else p3)"
    by (simp add: number_scan_def Let_def p1_def p2_def p3_def p4_def p5_def)
  then show ?thesis
    using 3 5 by (auto intro: strlen_digits_trans)
qed

lemma strlen_json_parse_number:
  "strlen (cur (snd (json_parse_number f p))) \<le> strlen (cur p)"
  by (simp add: json_parse_number_def strlen_number_scan)

text \<open>
  \<^verbatim>\<open>json_array_push\<close> and \<^verbatim>\<open>json_object_put\<close> store the new element behind the last
  one (the backing arrays grow as needed). Both are called on the container that
  \<^verbatim>\<open>json_make_value\<close> has just made, and read the array or object member of the union
  whatever the tag is: on another value the result is unspecified.
\<close>

fun json_array_push :: "'n JsonValue \<Rightarrow> 'n JsonValue \<Rightarrow> 'n JsonValue" where
  "json_array_push (JArray xs) item = JArray (xs @ [item])"

fun json_object_put :: "'n JsonValue \<Rightarrow> string option \<Rightarrow> 'n JsonValue \<Rightarrow> 'n JsonValue" where
  "json_object_put (JObject es) k v = JObject (es @ [(k, v)])"

subsection \<open>Values, arrays and objects\<close>

text \<open>
  The five mutually recursive functions: \<^verbatim>\<open>json_parse_value\<close>, \<^verbatim>\<open>json_parse_array\<close> and
  \<^verbatim>\<open>json_parse_object\<close>, and the \<^verbatim>\<open>while (1)\<close> loop of each container with the code
  behind the loop. An array and an object are returned also after an error (the parser
  latches the message and the caller drops the partial tree), so only
  \<^verbatim>\<open>json_parse_value\<close> can return NULL.
\<close>

function json_parse_value ::
    "(string \<Rightarrow> 'n) \<Rightarrow> JsonParser \<Rightarrow> 'n JsonValue option \<times> JsonParser"
  and json_parse_array ::
    "(string \<Rightarrow> 'n) \<Rightarrow> JsonParser \<Rightarrow> 'n JsonValue \<times> JsonParser"
  and json_parse_array_loop ::
    "(string \<Rightarrow> 'n) \<Rightarrow> JsonParser \<Rightarrow> 'n JsonValue \<Rightarrow> 'n JsonValue \<times> JsonParser"
  and json_parse_object ::
    "(string \<Rightarrow> 'n) \<Rightarrow> JsonParser \<Rightarrow> 'n JsonValue \<times> JsonParser"
  and json_parse_object_loop ::
    "(string \<Rightarrow> 'n) \<Rightarrow> JsonParser \<Rightarrow> 'n JsonValue \<Rightarrow> 'n JsonValue \<times> JsonParser"
where
  "json_parse_value strtod p =
     (let p1 = json_skip_ws p; ch = json_peek p1 in
      if ch = DQUOTE then
        (case json_parse_string_literal p1 of
           (None, p2) \<Rightarrow> (None, p2)
         | (Some text, p2) \<Rightarrow> (Some (JString text), p2))
      else if ch = CHR ''{'' then
        (Some (fst (json_parse_object strtod p1)), snd (json_parse_object strtod p1))
      else if ch = CHR ''['' then
        (Some (fst (json_parse_array strtod p1)), snd (json_parse_array strtod p1))
      else if ch = CHR ''t'' then json_parse_literal p1 ''true'' JSON_BOOL 1
      else if ch = CHR ''f'' then json_parse_literal p1 ''false'' JSON_BOOL 0
      else if ch = CHR ''n'' then json_parse_literal p1 ''null'' JSON_NULL 0
      else if ch = CHR ''-'' \<or> (CHR ''0'' \<le> ch \<and> ch \<le> CHR ''9'') then
        (Some (fst (json_parse_number strtod p1)), snd (json_parse_number strtod p1))
      else (None, json_error p1 ''Unexpected character''))"
| "json_parse_array strtod p =
     (let p1 = json_skip_ws (json_expect p (CHR ''['')) in
      if json_peek p1 = CHR '']'' then (json_make_value JSON_ARRAY, json_expect p1 (CHR '']''))
      else json_parse_array_loop strtod p1 (json_make_value JSON_ARRAY))"
| "json_parse_array_loop strtod p array =
     (let r = json_parse_value strtod (json_skip_ws p) in
      case fst r of
        None \<Rightarrow> (array, json_error (snd r) ''Invalid array item'')
      | Some item \<Rightarrow>
          (let p1 = json_skip_ws (snd r) in
           if json_peek p1 = CHR '','' then
             json_parse_array_loop strtod (json_expect p1 (CHR '','')) (json_array_push array item)
           else
             (json_array_push array item,
              json_expect
                (if json_peek p1 \<noteq> CHR '']'' then json_error p1 ''Unterminated array'' else p1)
                (CHR '']''))))"
| "json_parse_object strtod p =
     (let p1 = json_skip_ws (json_expect p (CHR ''{'')) in
      if json_peek p1 = CHR ''}'' then (json_make_value JSON_OBJECT, json_expect p1 (CHR ''}''))
      else json_parse_object_loop strtod p1 (json_make_value JSON_OBJECT))"
| "json_parse_object_loop strtod p object =
     (let p1 = json_skip_ws p in
      if json_peek p1 \<noteq> DQUOTE then (object, json_error p1 ''Expected string key'')
      else
        (let k = json_parse_string_literal p1;
             p2 = json_skip_ws (json_expect (json_skip_ws (snd k)) (CHR '':''));
             r = json_parse_value strtod p2
         in case fst r of
              None \<Rightarrow> (object, json_error (snd r) ''Invalid object value'')
            | Some v \<Rightarrow>
                (let p3 = json_skip_ws (snd r) in
                 if json_peek p3 = CHR '','' then
                   json_parse_object_loop strtod (json_expect p3 (CHR '','')) (json_object_put object (fst k) v)
                 else
                   (json_object_put object (fst k) v,
                    json_expect
                      (if json_peek p3 \<noteq> CHR ''}'' then json_error p3 ''Unterminated object''
                       else p3)
                      (CHR ''}'')))))"
  by pat_completeness auto

text \<open>
  The loop of a container goes on with the parser that \<^verbatim>\<open>json_parse_value\<close> returns, so
  the termination needs that this parser is no further from the end of the input; it is
  proved first for the arguments on which the functions are known to return.
\<close>

abbreviation (input) "parse_dom \<equiv> json_parse_value_json_parse_array_json_parse_array_loop_json_parse_object_json_parse_object_loop_dom"

lemma strlen_partial:
  "parse_dom (Inl (Inl (f :: string \<Rightarrow> 'a, p))) \<Longrightarrow> strlen (cur (snd (json_parse_value f p))) \<le> strlen (cur p)"
  "parse_dom (Inl (Inr (f, p))) \<Longrightarrow> strlen (cur (snd (json_parse_array f p))) \<le> strlen (cur p)"
  "parse_dom (Inr (Inl (f, p, xs))) \<Longrightarrow> strlen (cur (snd (json_parse_array_loop f p xs))) \<le> strlen (cur p)"
  "parse_dom (Inr (Inr (Inl (f, p)))) \<Longrightarrow> strlen (cur (snd (json_parse_object f p))) \<le> strlen (cur p)"
  "parse_dom (Inr (Inr (Inr (f, p, es)))) \<Longrightarrow> strlen (cur (snd (json_parse_object_loop f p es))) \<le> strlen (cur p)"
proof (induction f p and f p and f p xs and f p and f p es
    rule: json_parse_value_json_parse_array_json_parse_array_loop_json_parse_object_json_parse_object_loop.pinduct)
  case (1 strtod p)
  let ?p1 = "json_skip_ws p"
  have le1: "strlen (cur ?p1) \<le> strlen (cur p)" by (rule strlen_json_skip_ws)
  have obj: "strlen (cur (snd (json_parse_object strtod ?p1))) \<le> strlen (cur ?p1)"
    if "json_peek ?p1 = CHR ''{''"
    using "1.IH"(1) [OF refl refl _ that] that by simp
  have arr: "strlen (cur (snd (json_parse_array strtod ?p1))) \<le> strlen (cur ?p1)"
    if "json_peek ?p1 = CHR ''[''"
    using "1.IH"(3) [OF refl refl _ _ that] that by simp
  have lit: "strlen (cur (snd (json_parse_literal ?p1 l t b :: 'a JsonValue option \<times> JsonParser)))
      \<le> strlen (cur p)" for l t b
    by (rule order_trans [OF strlen_json_parse_literal le1])
  show ?case
    using le1 obj arr strlen_json_parse_string_literal [of ?p1] lit
      strlen_json_parse_number [of strtod ?p1]
    by (subst json_parse_value.psimps [OF "1.hyps"])
       (auto simp add: Let_def split: prod.splits option.splits)
next
  case (2 strtod p)
  let ?p1 = "json_skip_ws (json_expect p (CHR ''[''))"
  have le1: "strlen (cur ?p1) \<le> strlen (cur p)"
    by (rule order_trans [OF strlen_json_skip_ws strlen_json_expect])
  have loop: "strlen (cur (snd (json_parse_array_loop strtod ?p1 (json_make_value JSON_ARRAY)))) \<le> strlen (cur ?p1)"
    if "json_peek ?p1 \<noteq> CHR '']''"
    using "2.IH" [OF refl that] .
  show ?case
    using le1 loop strlen_json_expect [of ?p1 "CHR '']''"]
    by (subst json_parse_array.psimps [OF "2.hyps"]) (auto simp add: Let_def)
next
  case (3 strtod p items)
  let ?r = "json_parse_value strtod (json_skip_ws p)"
  let ?p1 = "json_skip_ws (snd ?r)"
  have r: "strlen (cur (snd ?r)) \<le> strlen (cur p)"
    by (rule order_trans [OF "3.IH"(1) strlen_json_skip_ws])
  have le1: "strlen (cur ?p1) \<le> strlen (cur p)"
    by (rule order_trans [OF strlen_json_skip_ws r])
  have loop: "strlen (cur (snd (json_parse_array_loop strtod (json_expect ?p1 (CHR '','')) (json_array_push items x))))
      \<le> strlen (cur p)"
    if "fst ?r = Some x" "json_peek ?p1 = CHR '',''" for x
    by (rule order_trans [OF "3.IH"(2) [OF refl that(1) refl that(2)]
          order_trans [OF strlen_json_expect le1]])
  have fin: "strlen (cur (json_expect q c)) \<le> strlen (cur p)" if "cur q = cur ?p1" for q c
    using strlen_json_expect [of q c] le1 that by simp
  show ?case
    using r loop
    by (subst json_parse_array_loop.psimps [OF "3.hyps"])
       (auto simp add: Let_def split: option.splits intro!: fin)
next
  case (4 strtod p)
  let ?p1 = "json_skip_ws (json_expect p (CHR ''{''))"
  have le1: "strlen (cur ?p1) \<le> strlen (cur p)"
    by (rule order_trans [OF strlen_json_skip_ws strlen_json_expect])
  have loop: "strlen (cur (snd (json_parse_object_loop strtod ?p1 (json_make_value JSON_OBJECT)))) \<le> strlen (cur ?p1)"
    if "json_peek ?p1 \<noteq> CHR ''}''"
    using "4.IH" [OF refl that] .
  show ?case
    using le1 loop strlen_json_expect [of ?p1 "CHR ''}''"]
    by (subst json_parse_object.psimps [OF "4.hyps"]) (auto simp add: Let_def)
next
  case (5 strtod p entries)
  let ?p1 = "json_skip_ws p"
  let ?k = "json_parse_string_literal ?p1"
  let ?p2 = "json_skip_ws (json_expect (json_skip_ws (snd ?k)) (CHR '':''))"
  let ?r = "json_parse_value strtod ?p2"
  let ?p3 = "json_skip_ws (snd ?r)"
  have le1: "strlen (cur ?p1) \<le> strlen (cur p)" by (rule strlen_json_skip_ws)
  have le2: "strlen (cur ?p2) \<le> strlen (cur p)"
    by (intro order_trans [OF strlen_json_skip_ws] order_trans [OF strlen_json_expect]
          order_trans [OF strlen_json_parse_string_literal] le1)
  have r: "strlen (cur (snd ?r)) \<le> strlen (cur p)" if "json_peek ?p1 = DQUOTE"
    using "5.IH"(1) [OF refl _ refl refl] that le2 by simp
  have le3: "strlen (cur ?p3) \<le> strlen (cur p)" if "json_peek ?p1 = DQUOTE"
    by (rule order_trans [OF strlen_json_skip_ws r [OF that]])
  have loop: "strlen (cur (snd (json_parse_object_loop strtod (json_expect ?p3 (CHR '','')) (json_object_put entries (fst ?k) x))))
      \<le> strlen (cur p)"
    if "json_peek ?p1 = DQUOTE" "fst ?r = Some x" "json_peek ?p3 = CHR '',''" for x
    using "5.IH"(2) [OF refl _ refl refl refl that(2) refl that(3)] that(1)
      strlen_json_expect [of ?p3 "CHR '',''"] le3 [OF that(1)]
    by simp
  have fin: "strlen (cur (json_expect q c)) \<le> strlen (cur p)"
    if "json_peek ?p1 = DQUOTE" "cur q = cur ?p3" for q c
    using strlen_json_expect [of q c] le3 that by simp
  show ?case
    using le1 r loop
    by (subst json_parse_object_loop.psimps [OF "5.hyps"])
       (auto simp add: Let_def split: option.splits intro!: fin)
qed

text \<open>
  The measure: three times the length of the C string at the cursor, plus the rank of the
  function (a container function that has its bracket still before it ranks lowest).
\<close>

definition parse_measure ::
  "((string \<Rightarrow> 'n) \<times> JsonParser + (string \<Rightarrow> 'n) \<times> JsonParser) +
   (string \<Rightarrow> 'n) \<times> JsonParser \<times> 'n JsonValue +
   (string \<Rightarrow> 'n) \<times> JsonParser +
   (string \<Rightarrow> 'n) \<times> JsonParser \<times> 'n JsonValue \<Rightarrow> nat" where
  "parse_measure x =
     (case x of
        Inl (Inl (f, p)) \<Rightarrow> 3 * strlen (cur p) + 1
      | Inl (Inr (f, p)) \<Rightarrow> (if strlen (cur p) = 0 then 3 else 3 * strlen (cur p))
      | Inr (Inl (f, p, xs)) \<Rightarrow> 3 * strlen (cur p) + 2
      | Inr (Inr (Inl (f, p))) \<Rightarrow> (if strlen (cur p) = 0 then 3 else 3 * strlen (cur p))
      | Inr (Inr (Inr (f, p, es))) \<Rightarrow> 3 * strlen (cur p) + 2)"

lemma strlen_pos: "json_peek p \<noteq> NUL \<Longrightarrow> 0 < strlen (cur p)"
  by (cases "cur p") (simp_all add: json_peek_def strlen_Cons)

lemma json_peek_NUL: "strlen (cur p) = 0 \<Longrightarrow> json_peek p = NUL"
  using strlen_pos [of p] by auto

lemma strlen_pos_iff: "0 < strlen (cur p) \<longleftrightarrow> json_peek p \<noteq> NUL"
  by (cases "cur p") (simp_all add: json_peek_def strlen_Cons)

lemma strlen_json_expect_pos:
  "0 < strlen (cur p) \<Longrightarrow> strlen (cur (json_expect p ch)) < strlen (cur p)"
  by (simp add: strlen_pos_iff strlen_json_expect_less)

lemma parse_measure_container:
  assumes "x = json_skip_ws p" "xa = json_peek x" "xa = c" "c \<noteq> NUL"
  shows "3 * strlen (cur x) < 3 * strlen (cur p) + 1" "strlen (cur x) \<noteq> 0"
proof -
  from assms(2) [symmetric] assms(3) have "json_peek x = c" by (rule trans)
  with assms(4) have "0 < strlen (cur x)" by (simp add: strlen_pos)
  then show "strlen (cur x) \<noteq> 0" by simp
  show "3 * strlen (cur x) < 3 * strlen (cur p) + 1"
    using assms(1) strlen_json_skip_ws [of p] by simp
qed

termination json_parse_value
proof (relation "measure parse_measure")
  show "wf (measure parse_measure)" by simp
next
  fix strtod :: "string \<Rightarrow> 'a" and p x xa
  assume a: "x = json_skip_ws p" "xa = json_peek x" "xa = CHR ''{''"
  have "3 * strlen (cur x) < 3 * strlen (cur p) + 1" "strlen (cur x) \<noteq> 0"
    by (rule parse_measure_container [OF a]; simp)+
  then show "(Inr (Inr (Inl (strtod, x))), Inl (Inl (strtod, p))) \<in> measure parse_measure"
    by (simp add: parse_measure_def)
next
  fix strtod :: "string \<Rightarrow> 'a" and p x xa
  assume a: "x = json_skip_ws p" "xa = json_peek x" "xa = CHR ''{''"
  have "3 * strlen (cur x) < 3 * strlen (cur p) + 1" "strlen (cur x) \<noteq> 0"
    by (rule parse_measure_container [OF a]; simp)+
  then show "(Inr (Inr (Inl (strtod, x))), Inl (Inl (strtod, p))) \<in> measure parse_measure"
    by (simp add: parse_measure_def)
next
  fix strtod :: "string \<Rightarrow> 'a" and p x xa
  assume a: "x = json_skip_ws p" "xa = json_peek x" "xa = CHR ''[''"
  have "3 * strlen (cur x) < 3 * strlen (cur p) + 1" "strlen (cur x) \<noteq> 0"
    by (rule parse_measure_container [OF a]; simp)+
  then show "(Inl (Inr (strtod, x)), Inl (Inl (strtod, p))) \<in> measure parse_measure"
    by (simp add: parse_measure_def)
next
  fix strtod :: "string \<Rightarrow> 'a" and p x xa
  assume a: "x = json_skip_ws p" "xa = json_peek x" "xa = CHR ''[''"
  have "3 * strlen (cur x) < 3 * strlen (cur p) + 1" "strlen (cur x) \<noteq> 0"
    by (rule parse_measure_container [OF a]; simp)+
  then show "(Inl (Inr (strtod, x)), Inl (Inl (strtod, p))) \<in> measure parse_measure"
    by (simp add: parse_measure_def)
next
  fix strtod :: "string \<Rightarrow> 'a" and p x
  assume "x = json_skip_ws (json_expect p (CHR ''[''))"
  then show "(Inr (Inl (strtod, x, json_make_value JSON_ARRAY)), Inl (Inr (strtod, p))) \<in> measure parse_measure"
    using strlen_json_skip_ws [of "json_expect p (CHR ''['')"]
      strlen_json_expect [of p "CHR ''[''"] strlen_json_expect_pos [of p "CHR ''[''"]
    by (auto simp add: parse_measure_def)
next
  fix strtod :: "string \<Rightarrow> 'a" and p and items :: "'a JsonValue"
  show "(Inl (Inl (strtod, json_skip_ws p)), Inr (Inl (strtod, p, items))) \<in> measure parse_measure"
    using strlen_json_skip_ws [of p] by (simp add: parse_measure_def)
next
  fix strtod :: "string \<Rightarrow> 'a" and p and items :: "'a JsonValue" and x x2 xa
  assume "x = json_parse_value strtod (json_skip_ws p)" "xa = json_skip_ws (snd x)"
    "json_peek xa = CHR '',''" "parse_dom (Inl (Inl (strtod, json_skip_ws p)))"
  then show "(Inr (Inl (strtod, json_expect xa (CHR '',''), json_array_push items x2)), Inr (Inl (strtod, p, items)))
      \<in> measure parse_measure"
    using strlen_partial(1) [of strtod "json_skip_ws p"] strlen_json_skip_ws [of p]
      strlen_json_skip_ws [of "snd x"] strlen_json_expect_less [of xa "CHR '',''"]
    by (simp add: parse_measure_def)
next
  fix strtod :: "string \<Rightarrow> 'a" and p x
  assume "x = json_skip_ws (json_expect p (CHR ''{''))"
  then show "(Inr (Inr (Inr (strtod, x, json_make_value JSON_OBJECT))), Inr (Inr (Inl (strtod, p)))) \<in> measure parse_measure"
    using strlen_json_skip_ws [of "json_expect p (CHR ''{'')"]
      strlen_json_expect [of p "CHR ''{''"] strlen_json_expect_pos [of p "CHR ''{''"]
    by (auto simp add: parse_measure_def)
next
  fix strtod :: "string \<Rightarrow> 'a" and p and entries :: "'a JsonValue" and x xa xb
  assume "x = json_skip_ws p" "xa = json_parse_string_literal x"
    "xb = json_skip_ws (json_expect (json_skip_ws (snd xa)) (CHR '':''))"
  then have le: "strlen (cur xb) \<le> strlen (cur p)"
    using strlen_json_skip_ws [of p] strlen_json_parse_string_literal [of x]
      strlen_json_skip_ws [of "snd xa"] strlen_json_expect [of "json_skip_ws (snd xa)" "CHR '':''"]
      strlen_json_skip_ws [of "json_expect (json_skip_ws (snd xa)) (CHR '':'')"]
    by simp
  then show "(Inl (Inl (strtod, xb)), Inr (Inr (Inr (strtod, p, entries)))) \<in> measure parse_measure"
    by (simp add: parse_measure_def)
  fix xc x2 xd
  assume "xc = json_parse_value strtod xb" "xd = json_skip_ws (snd xc)"
    "json_peek xd = CHR '',''" "parse_dom (Inl (Inl (strtod, xb)))"
  then show "(Inr (Inr (Inr (strtod, json_expect xd (CHR '',''), json_object_put entries (fst xa) x2))),
        Inr (Inr (Inr (strtod, p, entries)))) \<in> measure parse_measure"
    using le strlen_partial(1) [of strtod xb]
      strlen_json_skip_ws [of "snd xc"] strlen_json_expect_less [of xd "CHR '',''"]
    by (simp add: parse_measure_def)
qed

declare json_parse_value.simps [simp del] json_parse_array.simps [simp del]
  json_parse_array_loop.simps [simp del] json_parse_object.simps [simp del]
  json_parse_object_loop.simps [simp del]


subsection \<open>The entry point\<close>

text \<open>
  \<^verbatim>\<open>json_parse\<close> returns the value or NULL; when it returns NULL it has printed one line on
  \<^verbatim>\<open>stderr\<close>. The model returns that line as the left summand.
\<close>

definition json_parse :: "(string \<Rightarrow> 'n) \<Rightarrow> string \<Rightarrow> string + 'n JsonValue" where
  "json_parse strtod text =
     (let r = json_parse_value strtod \<lparr>start = text, cur = text, error = []\<rparr> in
      case fst r of
        None \<Rightarrow>
          Inl (''JSON parse error: '' @ (if error (snd r) \<noteq> [] then error (snd r) else ''unknown'')
               @ [CHR 0x0A])
      | Some v \<Rightarrow>
          if error (snd r) \<noteq> [] then Inl (''JSON parse error: '' @ error (snd r) @ [CHR 0x0A])
          else if json_peek (json_skip_ws (snd r)) \<noteq> NUL
          then Inl (''JSON parse error: trailing characters'' @ [CHR 0x0A])
          else Inr v)"

subsection \<open>Accessors\<close>

text \<open>
  A \<^verbatim>\<open>const JsonValue *\<close> argument may be NULL: it is a \<open>'n JsonValue option\<close>, and a
  returned NULL (the absent-marker) is \<open>None\<close>. \<^verbatim>\<open>strcmp\<close> on a NULL key dereferences
  NULL; the scan of \<^verbatim>\<open>json_object_get\<close> returns \<open>Inl NullKey\<close> there.
  \<^verbatim>\<open>json_get_string\<close> also tests \<^verbatim>\<open>as.string\<close> for NULL; no String has a NULL payload (see
  the value tree), so the test is no branch of the model. A \<^verbatim>\<open>size_t\<close> index is a \<open>nat\<close>.
\<close>

datatype fault = NullKey

fun object_scan :: "(string option \<times> 'n JsonValue) list \<Rightarrow> string \<Rightarrow> fault + 'n JsonValue option" where
  "object_scan [] k = Inr None"
| "object_scan ((None, v) # es) k = Inl NullKey"
| "object_scan ((Some k', v) # es) k = (if k' = k then Inr (Some v) else object_scan es k)"

fun json_object_get :: "'n JsonValue option \<Rightarrow> string \<Rightarrow> fault + 'n JsonValue option" where
  "json_object_get (Some (JObject es)) k = object_scan es k"
| "json_object_get other k = Inr None"

fun json_get_string :: "'n JsonValue option \<Rightarrow> string \<Rightarrow> string" where
  "json_get_string (Some (JString s)) defaultValue = s"
| "json_get_string other defaultValue = defaultValue"

fun json_get_number :: "'n JsonValue option \<Rightarrow> 'n \<Rightarrow> 'n" where
  "json_get_number (Some (JNumber x)) defaultValue = x"
| "json_get_number other defaultValue = defaultValue"

fun json_get_bool :: "'n JsonValue option \<Rightarrow> int \<Rightarrow> int" where
  "json_get_bool (Some (JBool b)) defaultValue = b"
| "json_get_bool other defaultValue = defaultValue"

fun json_array_size :: "'n JsonValue option \<Rightarrow> nat" where
  "json_array_size (Some (JArray xs)) = length xs"
| "json_array_size other = 0"

fun json_array_get :: "'n JsonValue option \<Rightarrow> nat \<Rightarrow> 'n JsonValue option" where
  "json_array_get (Some (JArray xs)) i = (if i \<ge> length xs then None else Some (xs ! i))"
| "json_array_get other i = None"

subsection \<open>A decimal conversion\<close>

text \<open>
  Modelled from the spec: \<^verbatim>\<open>strtod\<close> is the C library's, not the repository's; the spec
  calls it ``a standard decimal-to-double conversion''. \<open>decimal_strtod\<close> is the exact value
  of the longest prefix that is a decimal constant (sign, digits, fraction, exponent), and
  0 when there is no digit to convert. The rounding to a \<open>double\<close> is not part of it. It
  instantiates the parameter \<open>strtod\<close> where a closed statement needs a conversion.
\<close>

definition is_digit :: "char \<Rightarrow> bool" where
  "is_digit c = (CHR ''0'' \<le> c \<and> c \<le> CHR ''9'')"

definition digits_nat :: "string \<Rightarrow> nat" where
  "digits_nat ds = foldl (\<lambda>n c. 10 * n + (of_char c - 48)) 0 ds"

definition decimal_exponent :: "string \<Rightarrow> int" where
  "decimal_exponent s =
     (case s of
        [] \<Rightarrow> 0
      | e # r \<Rightarrow>
          if e = CHR ''e'' \<or> e = CHR ''E'' then
            (let neg = (take 1 r = ''-'');
                 r1 = (if take 1 r = ''-'' \<or> take 1 r = ''+'' then drop 1 r else r);
                 ds = takeWhile is_digit r1
             in if neg then - int (digits_nat ds) else int (digits_nat ds))
          else 0)"

definition decimal_strtod :: "string \<Rightarrow> real" where
  "decimal_strtod s =
     (let neg = (take 1 s = ''-'');
          s1 = (if take 1 s = ''-'' \<or> take 1 s = ''+'' then drop 1 s else s);
          ip = takeWhile is_digit s1;
          r1 = dropWhile is_digit s1;
          fp = (if take 1 r1 = ''.'' then takeWhile is_digit (drop 1 r1) else []);
          r2 = (if take 1 r1 = ''.'' then dropWhile is_digit (drop 1 r1) else r1);
          m = real (digits_nat (ip @ fp)) / 10 ^ length fp;
          ex = decimal_exponent r2;
          v = (if ip = [] \<and> fp = [] then 0
               else if 0 \<le> ex then m * 10 ^ nat ex else m / 10 ^ nat (- ex))
      in if neg then - v else v)"

section \<open>The vocabulary of the properties\<close>

text \<open>The whitespace of the spec: space, tab, line feed, carriage return.\<close>

definition is_ws :: "char \<Rightarrow> bool" where
  "is_ws c = (c = CHR '' '' \<or> c = CHR 0x09 \<or> c = CHR 0x0A \<or> c = CHR 0x0D)"

text \<open>The bytes that pass through a string literal unchanged.\<close>

definition plain :: "string \<Rightarrow> bool" where
  "plain s = (\<forall>c\<in>set s. c \<noteq> NUL \<and> c \<noteq> DQUOTE \<and> c \<noteq> BACKSLASH)"

text \<open>The eight escapes of the spec, each with the byte it stands for.\<close>

definition escape_table :: "(char \<times> char) list" where
  "escape_table =
     [(DQUOTE, DQUOTE), (BACKSLASH, BACKSLASH), (CHR ''/'', CHR ''/''), (CHR ''b'', CHR 0x08),
      (CHR ''f'', CHR 0x0C), (CHR ''n'', CHR 0x0A), (CHR ''r'', CHR 0x0D), (CHR ''t'', CHR 0x09)]"

text \<open>
  The grammar of the spec, in its words:
  \<^verbatim>\<open>number ::= '-'? digit+ ('.' digit+)? (('e'|'E') ('+'|'-')? digit+)?\<close>.
\<close>

definition digits1 :: "string \<Rightarrow> bool" where
  "digits1 ds = (ds \<noteq> [] \<and> (\<forall>c\<in>set ds. is_digit c))"

definition number_grammar :: "string \<Rightarrow> bool" where
  "number_grammar s =
     (\<exists>sg ip fr ex.
        s = sg @ ip @ fr @ ex
        \<and> (sg = [] \<or> sg = ''-'')
        \<and> digits1 ip
        \<and> (fr = [] \<or> (\<exists>fp. fr = CHR ''.'' # fp \<and> digits1 fp))
        \<and> (ex = [] \<or> (\<exists>e sn ed. ex = e # sn @ ed \<and> (e = CHR ''e'' \<or> e = CHR ''E'')
                          \<and> (sn = [] \<or> sn = ''+'' \<or> sn = ''-'') \<and> digits1 ed)))"

text \<open>What may stand behind a number token: the end, or a byte that continues no number.\<close>

definition number_stop :: "string \<Rightarrow> bool" where
  "number_stop rest =
     (case rest of [] \<Rightarrow> True
      | c # cs \<Rightarrow> \<not> is_digit c \<and> c \<noteq> CHR ''.'' \<and> c \<noteq> CHR ''e'' \<and> c \<noteq> CHR ''E'')"

text \<open>
  The scan of the code as a grammar: \<^verbatim>\<open>'-'? digit* ('.' digit*)? (('e'|'E') ('+'|'-')? digit*)?\<close>,
  read from the left, where each optional part is taken when its first byte is there and
  each run of digits is as long as it can be.
\<close>

definition digits0 :: "string \<Rightarrow> bool" where
  "digits0 ds = (\<forall>c\<in>set ds. is_digit c)"

definition next_is :: "(char \<Rightarrow> bool) \<Rightarrow> string \<Rightarrow> bool" where
  "next_is P s = (case s of [] \<Rightarrow> False | c # cs \<Rightarrow> P c)"

definition lenient_split :: "string \<Rightarrow> string \<Rightarrow> string \<Rightarrow> string \<Rightarrow> string \<Rightarrow> string \<Rightarrow> bool" where
  "lenient_split s sg ip fr ex rest =
     (s = sg @ ip @ fr @ ex @ rest
      \<and> (sg = ''-'' \<or> (sg = [] \<and> \<not> next_is (\<lambda>c. c = CHR ''-'') s))
      \<and> digits0 ip \<and> \<not> next_is is_digit (fr @ ex @ rest)
      \<and> ((\<exists>fp. fr = CHR ''.'' # fp \<and> digits0 fp \<and> \<not> next_is is_digit (ex @ rest))
           \<or> (fr = [] \<and> \<not> next_is (\<lambda>c. c = CHR ''.'') (ex @ rest)))
      \<and> ((\<exists>e sn ed. ex = e # sn @ ed \<and> (e = CHR ''e'' \<or> e = CHR ''E'')
                \<and> (sn = ''+'' \<or> sn = ''-''
                     \<or> (sn = [] \<and> \<not> next_is (\<lambda>c. c = CHR ''+'' \<or> c = CHR ''-'') (ed @ rest)))
                \<and> digits0 ed \<and> \<not> next_is is_digit rest)
           \<or> (ex = [] \<and> \<not> next_is (\<lambda>c. c = CHR ''e'' \<or> c = CHR ''E'') rest)))"

text \<open>The latch: once the slot of \<open>p\<close> holds a message, \<open>q\<close> holds the same message.\<close>

definition latched :: "JsonParser \<Rightarrow> JsonParser \<Rightarrow> bool" where
  "latched p q = (error p \<noteq> [] \<longrightarrow> error q = error p)"


text \<open>
  The lookup in the words of the spec: the value of the first entry, in insertion order,
  whose key equals the queried key; \<open>None\<close> when no entry has that key.
\<close>

definition first_match :: "(string option \<times> 'v) list \<Rightarrow> string \<Rightarrow> 'v option" where
  "first_match es q = map_option snd (find (\<lambda>e. fst e = Some q) es)"

text \<open>No object of the tree has a NULL key.\<close>

fun keys_present :: "'n JsonValue \<Rightarrow> bool" where
  "keys_present (JArray xs) = (\<forall>x\<in>set xs. keys_present x)"
| "keys_present (JObject es) = (\<forall>(k, v)\<in>set es. k \<noteq> None \<and> keys_present v)"
| "keys_present v = True"

section \<open>Properties\<close>

lemmas parser_eval =
  json_parse_def json_parse_value.simps json_parse_array.simps json_parse_array_loop.simps
  json_parse_object.simps json_parse_object_loop.simps json_parse_string_literal_def
  string_literal_loop.simps json_parse_number_def number_token_def number_scan_def
  json_parse_literal_def json_make_value_def json_skip_ws_def json_skip_digits_def
  json_advance_def json_peek_def json_next_def json_expect_def json_error_def
  strlen_def strncmp_eq_def c_str_def escape_byte_def Let_def

lemmas decimal_eval =
  decimal_strtod_def decimal_exponent_def digits_nat_def is_digit_def Let_def

subsection \<open>Typed extraction\<close>

lemma first_match_append:
  "first_match (es @ es') q =
     (case first_match es q of Some v \<Rightarrow> Some v | None \<Rightarrow> first_match es' q)"
  by (induction es) (simp_all add: first_match_def)

lemma object_scan_first_match:
  "\<forall>e\<in>set es. fst e \<noteq> None \<Longrightarrow> object_scan es q = Inr (first_match es q)"
proof (induction es)
  case Nil
  then show ?case by (simp add: first_match_def)
next
  case (Cons e es)
  obtain k v where e: "e = (k, v)" by (cases e)
  with Cons.prems obtain k' where k: "k = Some k'" by auto
  from Cons have "object_scan es q = Inr (first_match es q)" by simp
  with e k show ?case by (simp add: first_match_def)
qed


text \<open>
  C5. For every possibly absent value \<open>v\<close> and every default, \<^verbatim>\<open>json_get_string\<close>,
  \<^verbatim>\<open>json_get_number\<close> and \<^verbatim>\<open>json_get_bool\<close> return the default when \<open>v\<close> is absent or
  its variant is not String, Number or Bool respectively, and the payload otherwise. So
  an absent value and a present Null both give the default under each extractor, and so
  does the lookup of a key that the object does not have or has with the value Null. The
  extractors are total: their result is a plain string, number or int, with no failure
  among the results.
\<close>

theorem typed_extractors_default:
  fixes v :: "'n JsonValue option"
  shows "((v = None \<or> (\<exists>w. v = Some w \<and> json_type w \<noteq> JSON_STRING)) \<longrightarrow> json_get_string v ds = ds)
       \<and> ((v = None \<or> (\<exists>w. v = Some w \<and> json_type w \<noteq> JSON_NUMBER)) \<longrightarrow> json_get_number v dn = dn)
       \<and> ((v = None \<or> (\<exists>w. v = Some w \<and> json_type w \<noteq> JSON_BOOL)) \<longrightarrow> json_get_bool v db = db)
       \<and> (\<forall>s. v = Some (JString s) \<longrightarrow> json_get_string v ds = s)
       \<and> (\<forall>x. v = Some (JNumber x) \<longrightarrow> json_get_number v dn = x)
       \<and> (\<forall>b. v = Some (JBool b) \<longrightarrow> json_get_bool v db = b)
       \<and> ((v = None \<or> v = Some JNull) \<longrightarrow>
            json_get_string v ds = ds \<and> json_get_number v dn = dn \<and> json_get_bool v db = db)
       \<and> ((\<forall>e\<in>set es. fst e \<noteq> None)
            \<and> (first_match es k = None \<or> first_match es k = Some JNull) \<longrightarrow>
            (\<exists>r. json_object_get (Some (JObject es)) k = Inr r
               \<and> json_get_string r ds = ds \<and> json_get_number r dn = dn \<and> json_get_bool r db = db))"
proof -
  have lookup: "\<exists>r. json_object_get (Some (JObject es)) k = Inr r
               \<and> json_get_string r ds = ds \<and> json_get_number r dn = dn \<and> json_get_bool r db = db"
    if "\<forall>e\<in>set es. fst e \<noteq> None" "first_match es k = None \<or> first_match es k = Some JNull"
  proof -
    from that(1) have "json_object_get (Some (JObject es)) k = Inr (first_match es k)"
      by (simp add: object_scan_first_match)
    with that(2) show ?thesis by auto
  qed
  show ?thesis
  proof (cases v)
    case None
    with lookup show ?thesis by simp
  next
    case (Some w)
    with lookup show ?thesis by (cases w) simp_all
  qed
qed

theorem typed_extractors_default_witness:
  "json_get_string (Some (JNumber (7::int))) ''fallback'' = ''fallback''
   \<and> json_get_number (Some (JString ''x'')) (7::int) = 7
   \<and> json_get_bool (Some (JNull :: int JsonValue)) 1 = 1
   \<and> json_get_string (None :: int JsonValue option) ''fallback'' = ''fallback''
   \<and> json_get_string (Some (JString ''abc'' :: int JsonValue)) ''fallback'' = ''abc''
   \<and> json_get_number (Some (JNumber (3::int))) 7 = 3
   \<and> json_get_bool (Some (JBool 0 :: int JsonValue)) 1 = 0
   \<and> (\<exists>r. json_object_get (Some (JObject [(Some ''bio'', JNull :: int JsonValue)])) ''bio'' = Inr r
         \<and> json_get_string r ''fallback'' = ''fallback'')
   \<and> (\<exists>r. json_object_get (Some (JObject [(Some ''bio'', JNull :: int JsonValue)])) ''name'' = Inr r
         \<and> json_get_string r ''fallback'' = ''fallback'')"
  using typed_extractors_default [where v = "Some (JNumber (7::int))" and ds = "''fallback''"
        and dn = 7 and db = 1 and es = "[(Some ''bio'', JNull)]" and k = "''bio''"]
    typed_extractors_default [where v = "Some (JString ''x'' :: int JsonValue)" and ds = "''fallback''"
        and dn = 7 and db = 1 and es = "[(Some ''bio'', JNull)]" and k = "''name''"]
    typed_extractors_default [where v = "Some (JNull :: int JsonValue)" and ds = "''fallback''"
        and dn = 7 and db = 1 and es = "[]" and k = "[]"]
    typed_extractors_default [where v = "None :: int JsonValue option" and ds = "''fallback''"
        and dn = 7 and db = 1 and es = "[]" and k = "[]"]
    typed_extractors_default [where v = "Some (JString ''abc'' :: int JsonValue)" and ds = "''fallback''"
        and dn = 7 and db = 1 and es = "[]" and k = "[]"]
    typed_extractors_default [where v = "Some (JNumber (3::int))" and ds = "''fallback''"
        and dn = 7 and db = 1 and es = "[]" and k = "[]"]
    typed_extractors_default [where v = "Some (JBool 0 :: int JsonValue)" and ds = "''fallback''"
        and dn = 7 and db = 1 and es = "[]" and k = "[]"]
  by (simp add: first_match_def)

subsection \<open>Arrays\<close>

lemma foldl_json_array_push: "foldl json_array_push (JArray xs) items = JArray (xs @ items)"
  by (induction items arbitrary: xs) simp_all

text \<open>
  C7. \<^verbatim>\<open>json_array_get\<close> returns the absent-marker, without a fault, when the value is
  absent or not an Array or the index is at least the length, and otherwise the element
  at that index in insertion order (the order of the \<^verbatim>\<open>json_array_push\<close> calls that built
  the array). \<^verbatim>\<open>json_array_size\<close> is 0 for every value that is not an Array.
\<close>

theorem array_access_safe:
  fixes v :: "'n JsonValue option"
  shows "((\<forall>xs. v \<noteq> Some (JArray xs)) \<longrightarrow> json_array_get v i = None \<and> json_array_size v = 0)
       \<and> (\<forall>xs. v = Some (JArray xs) \<longrightarrow>
             json_array_size v = length xs
             \<and> (length xs \<le> i \<longrightarrow> json_array_get v i = None)
             \<and> (i < length xs \<longrightarrow> json_array_get v i = Some (xs ! i)))
       \<and> json_array_get (Some (foldl json_array_push (json_make_value JSON_ARRAY) items)) i
           = (if i < length items then Some (items ! i) else None)"
proof (cases v)
  case None
  then show ?thesis by (simp add: json_make_value_def foldl_json_array_push)
next
  case (Some w)
  then show ?thesis by (cases w) (simp_all add: json_make_value_def foldl_json_array_push)
qed

theorem array_access_safe_witness:
  "json_array_get (Some (JString ''x'' :: int JsonValue)) 0 = None
   \<and> json_array_size (Some (JString ''x'' :: int JsonValue)) = 0
   \<and> json_array_size (Some (JArray [JNumber (3::int), JNumber 1, JNumber 2])) = 3
   \<and> json_array_get (Some (JArray [JNumber (3::int), JNumber 1, JNumber 2])) 3 = None
   \<and> json_array_get (Some (JArray [JNumber (3::int), JNumber 1, JNumber 2])) 1 = Some (JNumber 1)"
  using array_access_safe [of "Some (JString ''x'' :: int JsonValue)" 0 "[]"]
    array_access_safe [of "Some (JArray [JNumber (3::int), JNumber 1, JNumber 2])" 3 "[]"]
    array_access_safe [of "Some (JArray [JNumber (3::int), JNumber 1, JNumber 2])" 1 "[]"]
  by simp

subsection \<open>Primitives\<close>

text \<open>
  C6. Parsing \<^verbatim>\<open>true\<close>, \<^verbatim>\<open>false\<close>, \<^verbatim>\<open>null\<close>, \<^verbatim>\<open>42\<close>, \<^verbatim>\<open>-3.5e2\<close> and \<^verbatim>\<open>"abc"\<close> succeeds
  with Bool 1, Bool 0, Null, the Number that \<^verbatim>\<open>strtod\<close> makes of the text \<^verbatim>\<open>42\<close>, the
  Number that it makes of the text \<^verbatim>\<open>-3.5e2\<close>, and the String \<^verbatim>\<open>abc\<close>, whatever the
  conversion is; the decimal conversion makes 42 and -350 of the two texts.
\<close>

theorem parse_primitives:
  "json_parse strtod ''true'' = Inr (JBool 1)
   \<and> json_parse strtod ''false'' = Inr (JBool 0)
   \<and> json_parse strtod ''null'' = Inr JNull
   \<and> json_parse strtod ''42'' = Inr (JNumber (strtod ''42''))
   \<and> json_parse strtod ''-3.5e2'' = Inr (JNumber (strtod ''-3.5e2''))
   \<and> json_parse strtod ([DQUOTE] @ ''abc'' @ [DQUOTE]) = Inr (JString ''abc'')
   \<and> json_parse decimal_strtod ''42'' = Inr (JNumber 42)
   \<and> json_parse decimal_strtod ''-3.5e2'' = Inr (JNumber (- 350))"
proof -
  have t: "json_parse strtod ''true'' = Inr (JBool 1)" by (simp add: parser_eval)
  have f: "json_parse strtod ''false'' = Inr (JBool 0)" by (simp add: parser_eval)
  have n: "json_parse strtod ''null'' = Inr JNull" by (simp add: parser_eval)
  have a: "json_parse g ''42'' = Inr (JNumber (g ''42''))" for g :: "string \<Rightarrow> 'b"
    by (simp add: parser_eval)
  have b: "json_parse g ''-3.5e2'' = Inr (JNumber (g ''-3.5e2''))" for g :: "string \<Rightarrow> 'b"
    by (simp add: parser_eval)
  have s: "json_parse strtod ([DQUOTE] @ ''abc'' @ [DQUOTE]) = Inr (JString ''abc'')"
    by (simp add: parser_eval)
  have d1: "decimal_strtod ''42'' = 42" by (simp add: decimal_eval)
  have d2: "decimal_strtod ''-3.5e2'' = - 350" by (simp add: decimal_eval)
  show ?thesis
    using t f n a [of strtod] b [of strtod] s a [of decimal_strtod] b [of decimal_strtod] d1 d2
    by simp
qed

subsection \<open>End of input and trailing characters\<close>

lemma skip_ws_chars_all: "\<forall>c\<in>set s. is_ws c \<Longrightarrow> skip_ws_chars s = []"
  by (induction s) (auto simp add: is_ws_def)

lemma skip_ws_chars_end:
  "(case skip_ws_chars s of [] \<Rightarrow> NUL | c # cs \<Rightarrow> c) = NUL \<longleftrightarrow> (\<forall>c\<in>set (c_str s). is_ws c)"
  by (induction s) (auto simp add: is_ws_def c_str_def)

lemma json_peek_skip_ws_end:
  "json_peek (json_skip_ws p) = NUL \<longleftrightarrow> (\<forall>c\<in>set (c_str (cur p)). is_ws c)"
  using skip_ws_chars_end [of "cur p"] by (simp add: json_peek_def json_skip_ws_def)

lemma json_parse_value_end:
  assumes "json_peek (json_skip_ws p) = NUL"
  shows "json_parse_value strtod p = (None, json_error (json_skip_ws p) ''Unexpected character'')"
  using assms by (simp add: json_parse_value.simps Let_def)

text \<open>
  C9. Parsing the empty input, or an input of whitespace only, fails with the
  unexpected-character message and gives no value. At every place where a value is due,
  the end of the input is no value: \<^verbatim>\<open>json_parse_value\<close> returns NULL there, and latches
  the unexpected-character message when the slot is empty.
\<close>

theorem parse_blank_input:
  "((\<forall>c\<in>set s. is_ws c) \<longrightarrow>
      json_parse strtod s = Inl (''JSON parse error: Unexpected character near '' @ [CHR 0x0A]))
   \<and> json_parse strtod [] = Inl (''JSON parse error: Unexpected character near '' @ [CHR 0x0A])
   \<and> (json_peek (json_skip_ws p) = NUL \<longrightarrow>
        fst (json_parse_value strtod p) = None
        \<and> (error p = [] \<longrightarrow> error (snd (json_parse_value strtod p)) = ''Unexpected character near ''))"
proof -
  have blank: "json_parse strtod s = Inl (''JSON parse error: Unexpected character near '' @ [CHR 0x0A])"
    if ws: "\<forall>c\<in>set s. is_ws c" for s
  proof -
    let ?p = "\<lparr>start = s, cur = s, error = []\<rparr>"
    have "skip_ws_chars s = []" using ws by (rule skip_ws_chars_all)
    then have e: "json_skip_ws ?p = \<lparr>start = s, cur = [], error = []\<rparr>"
      by (simp add: json_skip_ws_def)
    then have "json_peek (json_skip_ws ?p) = NUL" by (simp add: json_peek_def)
    then have "json_parse_value strtod ?p = (None, json_error (json_skip_ws ?p) ''Unexpected character'')"
      by (rule json_parse_value_end)
    then show ?thesis
      by (simp add: json_parse_def e json_error_def c_str_def)
  qed
  have val: "fst (json_parse_value strtod p) = None
      \<and> (error p = [] \<longrightarrow> error (snd (json_parse_value strtod p)) = ''Unexpected character near '')"
    if "json_peek (json_skip_ws p) = NUL"
  proof -
    from that have "\<forall>c\<in>set (c_str (cur p)). is_ws c" by (simp add: json_peek_skip_ws_end)
    moreover have "c_str (skip_ws_chars (cur p)) = []"
      using that by (cases "skip_ws_chars (cur p)") (simp_all add: json_peek_def json_skip_ws_def c_str_def)
    ultimately show ?thesis
      using json_parse_value_end [OF that, of strtod]
      by (simp add: json_error_def json_skip_ws_def)
  qed
  show ?thesis using blank [of s] blank [of "[]"] val by simp
qed

theorem parse_blank_input_witness:
  "json_parse decimal_strtod ('' '' @ [CHR 0x09, CHR 0x0A, CHR 0x0D])
     = Inl (''JSON parse error: Unexpected character near '' @ [CHR 0x0A])
   \<and> fst (json_parse_value decimal_strtod \<lparr>start = ''[1, '', cur = '' '', error = []\<rparr>) = None
   \<and> error (snd (json_parse_value decimal_strtod \<lparr>start = ''[1, '', cur = '' '', error = []\<rparr>))
       = ''Unexpected character near ''"
  using parse_blank_input [where s = "'' '' @ [CHR 0x09, CHR 0x0A, CHR 0x0D]"
      and p = "\<lparr>start = ''[1, '', cur = '' '', error = []\<rparr>" and strtod = decimal_strtod]
  by (simp add: is_ws_def json_peek_def json_skip_ws_def)

text \<open>
  C4. When \<^verbatim>\<open>json_parse_value\<close> has returned the top-level value with the error slot
  empty, \<^verbatim>\<open>json_parse\<close> skips whitespace and fails with the trailing-characters message
  if and only if a character that is not whitespace is left; otherwise it returns the
  value. So \<^verbatim>\<open>1 2\<close> fails with that message, and \<^verbatim>\<open>1\<close> followed by whitespace only
  gives the Number made of the text \<^verbatim>\<open>1\<close>.
\<close>

theorem parse_trailing:
  "(json_parse_value strtod \<lparr>start = inp, cur = inp, error = []\<rparr> = (Some v, q) \<and> error q = []
      \<longrightarrow> json_parse strtod inp =
            (if \<forall>c\<in>set (c_str (cur q)). is_ws c then Inr v
             else Inl (''JSON parse error: trailing characters'' @ [CHR 0x0A])))
   \<and> json_parse strtod ''1 2'' = Inl (''JSON parse error: trailing characters'' @ [CHR 0x0A])
   \<and> ((\<forall>c\<in>set ws. is_ws c) \<longrightarrow> json_parse strtod (''1'' @ ws) = Inr (JNumber (strtod ''1'')))"
proof -
  have gen: "json_parse strtod inp =
            (if \<forall>c\<in>set (c_str (cur q)). is_ws c then Inr v
             else Inl (''JSON parse error: trailing characters'' @ [CHR 0x0A]))"
    if "json_parse_value strtod \<lparr>start = inp, cur = inp, error = []\<rparr> = (Some v, q)"
      "error q = []"
    using that by (simp add: json_parse_def json_peek_skip_ws_end)
  have ex1: "json_parse strtod ''1 2'' = Inl (''JSON parse error: trailing characters'' @ [CHR 0x0A])"
    by (simp add: parser_eval)
  have ex2: "json_parse strtod (''1'' @ ws) = Inr (JNumber (strtod ''1''))"
    if ws: "\<forall>c\<in>set ws. is_ws c"
  proof (cases ws)
    case Nil
    then show ?thesis by (simp add: parser_eval)
  next
    case (Cons c cs)
    with ws have c: "is_ws c" and cs: "skip_ws_chars cs = []"
      by (simp_all add: skip_ws_chars_all)
    from c consider "c = CHR '' ''" | "c = CHR 0x09" | "c = CHR 0x0A" | "c = CHR 0x0D"
      by (auto simp add: is_ws_def)
    then show ?thesis
      by cases (simp_all add: Cons cs parser_eval)
  qed
  show ?thesis using gen ex1 ex2 by simp
qed

theorem parse_trailing_witness:
  "json_parse decimal_strtod ''1 x'' = Inl (''JSON parse error: trailing characters'' @ [CHR 0x0A])
   \<and> json_parse decimal_strtod (''1'' @ [CHR '' '', CHR 0x09, CHR 0x0A, CHR 0x0D]) = Inr (JNumber 1)"
proof -
  have v: "json_parse_value decimal_strtod \<lparr>start = ''1 x'', cur = ''1 x'', error = []\<rparr>
      = (Some (JNumber 1), \<lparr>start = ''1 x'', cur = '' x'', error = []\<rparr>)"
    by (simp add: parser_eval decimal_eval)
  have d: "decimal_strtod ''1'' = 1" by (simp add: decimal_eval)
  show ?thesis
    using parse_trailing [where strtod = decimal_strtod and inp = "''1 x''" and v = "JNumber 1"
        and q = "\<lparr>start = ''1 x'', cur = '' x'', error = []\<rparr>"
        and ws = "[CHR '' '', CHR 0x09, CHR 0x0A, CHR 0x0D]"] v d
    by (simp add: is_ws_def c_str_def)
qed

subsection \<open>String literals: escapes\<close>

lemma loop_plain:
  "cur p = c # rest \<Longrightarrow> c \<noteq> NUL \<Longrightarrow> c \<noteq> DQUOTE \<Longrightarrow> c \<noteq> BACKSLASH \<Longrightarrow>
   string_literal_loop p buf = string_literal_loop (p\<lparr>cur := rest\<rparr>) (buf @ [c])"
  by (subst string_literal_loop.simps) (simp add: json_peek_def json_next_def Let_def)

lemma loop_escape:
  "cur p = BACKSLASH # e # rest \<Longrightarrow> escape_byte e = Some b \<Longrightarrow>
   string_literal_loop p buf = string_literal_loop (p\<lparr>cur := rest\<rparr>) (buf @ [b])"
  by (subst string_literal_loop.simps)
     (auto simp add: json_peek_def json_next_def Let_def escape_byte_def split: if_splits)

lemma loop_unicode:
  "cur p = BACKSLASH # CHR ''u'' # a # b # c # d # rest \<Longrightarrow>
   a \<noteq> NUL \<Longrightarrow> b \<noteq> NUL \<Longrightarrow> c \<noteq> NUL \<Longrightarrow> d \<noteq> NUL \<Longrightarrow>
   string_literal_loop p buf =
     string_literal_loop (p\<lparr>cur := rest\<rparr>) (buf @ [BACKSLASH, CHR ''u'', a, b, c, d])"
  by (subst string_literal_loop.simps) (simp add: json_peek_def json_next_def Let_def)

lemma loop_bad_escape:
  "cur p = BACKSLASH # e # rest \<Longrightarrow> e \<noteq> NUL \<Longrightarrow> e \<noteq> CHR ''u'' \<Longrightarrow> escape_byte e = None \<Longrightarrow>
   string_literal_loop p buf = (None, json_error (p\<lparr>cur := rest\<rparr>) ''Invalid escape sequence'')"
  by (subst string_literal_loop.simps) (simp add: json_peek_def json_next_def Let_def)

lemma loop_escape_end:
  "cur p = BACKSLASH # rest \<Longrightarrow> rest = [] \<or> hd rest = NUL \<Longrightarrow>
   string_literal_loop p buf = (None, json_error (p\<lparr>cur := rest\<rparr>) ''Unterminated escape sequence'')"
  by (subst string_literal_loop.simps) (cases rest; simp add: json_peek_def json_next_def Let_def)

lemma loop_close:
  "cur p = DQUOTE # rest \<Longrightarrow> string_literal_loop p buf = (Some buf, p\<lparr>cur := rest\<rparr>)"
  by (subst string_literal_loop.simps) (simp add: json_peek_def json_next_def json_expect_def)

lemma loop_end:
  "json_peek p = NUL \<Longrightarrow>
   string_literal_loop p buf = (None, json_error p ''Unterminated string literal'')"
  by (subst string_literal_loop.simps) simp

lemma loop_plain_run:
  "plain pre \<Longrightarrow> cur p = pre @ rest \<Longrightarrow>
   string_literal_loop p buf = string_literal_loop (p\<lparr>cur := rest\<rparr>) (buf @ pre)"
proof (induction pre arbitrary: p buf)
  case Nil
  then have "p\<lparr>cur := rest\<rparr> = p" by simp
  then show ?case by simp
next
  case (Cons c pre)
  from Cons.prems have c: "c \<noteq> NUL" "c \<noteq> DQUOTE" "c \<noteq> BACKSLASH" and pre: "plain pre"
    by (simp_all add: plain_def)
  have "string_literal_loop p buf = string_literal_loop (p\<lparr>cur := pre @ rest\<rparr>) (buf @ [c])"
    using Cons.prems(2) c by (simp add: loop_plain)
  also have "\<dots> = string_literal_loop (p\<lparr>cur := pre @ rest, cur := rest\<rparr>) ((buf @ [c]) @ pre)"
    by (rule Cons.IH [OF pre]) simp
  finally show ?case by simp
qed

lemma json_parse_string:
  assumes "string_literal_loop \<lparr>start = DQUOTE # body, cur = body, error = []\<rparr> [] = (Some s, q)"
    and "error q = []" and "json_peek (json_skip_ws q) = NUL"
  shows "json_parse strtod (DQUOTE # body) = Inr (JString s)"
  using assms
  by (simp add: json_parse_def json_parse_value.simps json_skip_ws_def json_peek_def
      json_parse_string_literal_def json_expect_def json_next_def Let_def)

lemma json_parse_string_fail:
  assumes "string_literal_loop \<lparr>start = DQUOTE # body, cur = body, error = []\<rparr> [] = (None, q)"
    and "error q \<noteq> []"
  shows "json_parse strtod (DQUOTE # body) = Inl (''JSON parse error: '' @ error q @ [CHR 0x0A])"
  using assms
  by (simp add: json_parse_def json_parse_value.simps json_skip_ws_def json_peek_def
      json_parse_string_literal_def json_expect_def json_next_def Let_def)


lemma escape_byte_table: "escape_byte e = map_of escape_table e"
  by (simp add: escape_byte_def escape_table_def)

lemma json_parse_bad_escape:
  assumes "plain pre" "e \<noteq> NUL" "e \<noteq> CHR ''u''" "escape_byte e = None"
  shows "json_parse strtod (DQUOTE # pre @ BACKSLASH # e # rest)
     = Inl (''JSON parse error: Invalid escape sequence near '' @ take 32 (c_str rest) @ [CHR 0x0A])"
proof -
  let ?body = "pre @ BACKSLASH # e # rest"
  let ?p = "\<lparr>start = DQUOTE # ?body, cur = ?body, error = []\<rparr>"
  let ?q = "json_error (?p\<lparr>cur := rest\<rparr>) ''Invalid escape sequence''"
  have "string_literal_loop ?p [] = string_literal_loop (?p\<lparr>cur := BACKSLASH # e # rest\<rparr>) ([] @ pre)"
    by (rule loop_plain_run [OF assms(1)]) simp
  also have "\<dots> = (None, ?q)"
    using assms(2-4) by (simp add: loop_bad_escape)
  finally have loop: "string_literal_loop ?p [] = (None, ?q)" .
  have q: "error ?q = ''Invalid escape sequence near '' @ take 32 (c_str rest)"
    by (simp add: json_error_def)
  then have "error ?q \<noteq> []" by simp
  with loop have "json_parse strtod (DQUOTE # ?body) = Inl (''JSON parse error: '' @ error ?q @ [CHR 0x0A])"
    by (rule json_parse_string_fail)
  with q show ?thesis by simp
qed

text \<open>
  C2. Inside a string literal, at any state of the loop: a backslash before one of the
  eight escape characters puts the one byte of the table into the buffer; a backslash
  before \<open>u\<close> and four more characters puts these six characters into the buffer as they
  are; a backslash before any other character ends the literal with NULL and the
  invalid-escape message (the unterminated-escape message at the end of the input), so
  that \<^verbatim>\<open>json_parse\<close> of a literal with such an escape fails. Parsing the literal of \<open>a\<close>, backslash, \<open>n\<close>, \<open>b\<close> gives
  the String of \<open>a\<close>, line feed, \<open>b\<close>; parsing the literal of
  backslash, \<open>u00e9\<close> gives the String of these six characters.
\<close>

theorem string_escapes:
  "(cur p = BACKSLASH # e # rest \<and> (e, b) \<in> set escape_table \<longrightarrow>
      string_literal_loop p buf = string_literal_loop (p\<lparr>cur := rest\<rparr>) (buf @ [b]))
   \<and> (cur p = BACKSLASH # CHR ''u'' # x1 # x2 # x3 # x4 # rest
        \<and> x1 \<noteq> NUL \<and> x2 \<noteq> NUL \<and> x3 \<noteq> NUL \<and> x4 \<noteq> NUL \<longrightarrow>
      string_literal_loop p buf
        = string_literal_loop (p\<lparr>cur := rest\<rparr>) (buf @ [BACKSLASH, CHR ''u'', x1, x2, x3, x4]))
   \<and> (cur p = BACKSLASH # e # rest \<and> e \<notin> fst ` set escape_table \<and> e \<noteq> CHR ''u'' \<longrightarrow>
      fst (string_literal_loop p buf) = None
      \<and> (error p = [] \<longrightarrow>
           error (snd (string_literal_loop p buf)) =
             (if e = NUL then ''Unterminated escape sequence near ''
              else ''Invalid escape sequence near '' @ take 32 (c_str rest))))
   \<and> (plain pre \<and> e \<noteq> NUL \<and> e \<notin> fst ` set escape_table \<and> e \<noteq> CHR ''u'' \<longrightarrow>
      json_parse strtod (DQUOTE # pre @ BACKSLASH # e # rest)
        = Inl (''JSON parse error: Invalid escape sequence near '' @ take 32 (c_str rest) @ [CHR 0x0A]))
   \<and> json_parse strtod [DQUOTE, CHR ''a'', BACKSLASH, CHR ''n'', CHR ''b'', DQUOTE]
        = Inr (JString [CHR ''a'', CHR 0x0A, CHR ''b''])
   \<and> json_parse strtod ([DQUOTE, BACKSLASH] @ ''u00e9'' @ [DQUOTE])
        = Inr (JString ([BACKSLASH] @ ''u00e9''))
   \<and> length ([BACKSLASH] @ ''u00e9'') = 6"
proof -
  have none: "escape_byte e = None" if "e \<notin> fst ` set escape_table"
    using that by (simp add: escape_byte_table map_of_eq_None_iff)
  have one: "string_literal_loop p buf = string_literal_loop (p\<lparr>cur := rest\<rparr>) (buf @ [b])"
    if "cur p = BACKSLASH # e # rest" "(e, b) \<in> set escape_table"
  proof -
    have "escape_byte e = Some b"
      using that(2) by (auto simp add: escape_byte_def escape_table_def)
    with that(1) show ?thesis by (rule loop_escape)
  qed
  have uni: "string_literal_loop p buf
        = string_literal_loop (p\<lparr>cur := rest\<rparr>) (buf @ [BACKSLASH, CHR ''u'', x1, x2, x3, x4])"
    if "cur p = BACKSLASH # CHR ''u'' # x1 # x2 # x3 # x4 # rest"
      "x1 \<noteq> NUL" "x2 \<noteq> NUL" "x3 \<noteq> NUL" "x4 \<noteq> NUL"
    using that by (rule loop_unicode)
  have bad: "fst (string_literal_loop p buf) = None
      \<and> (error p = [] \<longrightarrow>
           error (snd (string_literal_loop p buf)) =
             (if e = NUL then ''Unterminated escape sequence near ''
              else ''Invalid escape sequence near '' @ take 32 (c_str rest)))"
    if c: "cur p = BACKSLASH # e # rest" and e: "e \<notin> fst ` set escape_table" "e \<noteq> CHR ''u''"
  proof (cases "e = NUL")
    case True
    have "string_literal_loop p buf
        = (None, json_error (p\<lparr>cur := e # rest\<rparr>) ''Unterminated escape sequence'')"
      using c True by (intro loop_escape_end) simp_all
    with True show ?thesis by (simp add: json_error_def c_str_def)
  next
    case False
    have "string_literal_loop p buf
        = (None, json_error (p\<lparr>cur := rest\<rparr>) ''Invalid escape sequence'')"
      using c False e(2) none [OF e(1)] by (rule loop_bad_escape)
    with False show ?thesis by (simp add: json_error_def)
  qed
  have fail: "json_parse strtod (DQUOTE # pre @ BACKSLASH # e # rest)
        = Inl (''JSON parse error: Invalid escape sequence near '' @ take 32 (c_str rest) @ [CHR 0x0A])"
    if "plain pre" "e \<noteq> NUL" "e \<notin> fst ` set escape_table" "e \<noteq> CHR ''u''"
    using that(1,2,4) none [OF that(3)] by (rule json_parse_bad_escape)
  have ex1: "json_parse strtod [DQUOTE, CHR ''a'', BACKSLASH, CHR ''n'', CHR ''b'', DQUOTE]
        = Inr (JString [CHR ''a'', CHR 0x0A, CHR ''b''])"
    by (simp add: parser_eval)
  have ex2: "json_parse strtod ([DQUOTE, BACKSLASH] @ ''u00e9'' @ [DQUOTE])
        = Inr (JString ([BACKSLASH] @ ''u00e9''))"
    by (simp add: parser_eval)
  show ?thesis
    using one uni bad fail ex1 ex2 by simp
qed

theorem string_escapes_witness:
  "string_literal_loop \<lparr>start = [], cur = [BACKSLASH, CHR ''t'', DQUOTE], error = []\<rparr> ''x''
     = (Some (''x'' @ [CHR 0x09]), \<lparr>start = [], cur = [], error = []\<rparr>)
   \<and> string_literal_loop \<lparr>start = [], cur = [BACKSLASH] @ ''u00e9'' @ [DQUOTE], error = []\<rparr> ''x''
     = (Some (''x'' @ [BACKSLASH] @ ''u00e9''), \<lparr>start = [], cur = [], error = []\<rparr>)
   \<and> fst (string_literal_loop \<lparr>start = [], cur = [BACKSLASH] @ ''x'' @ [DQUOTE], error = []\<rparr> ''x'')
     = None
   \<and> json_parse decimal_strtod ([DQUOTE] @ ''ab'' @ [BACKSLASH] @ ''x'' @ [DQUOTE])
     = Inl (''JSON parse error: Invalid escape sequence near '' @ [DQUOTE, CHR 0x0A])"
  using string_escapes [where p = "\<lparr>start = [], cur = [BACKSLASH, CHR ''t'', DQUOTE], error = []\<rparr>"
      and e = "CHR ''t''" and b = "CHR 0x09" and rest = "[DQUOTE]" and buf = "''x''"
      and strtod = decimal_strtod and pre = "[]"]
    string_escapes [where p = "\<lparr>start = [], cur = [BACKSLASH] @ ''u00e9'' @ [DQUOTE], error = []\<rparr>"
      and ?x1.0 = "CHR ''0''" and ?x2.0 = "CHR ''0''" and ?x3.0 = "CHR ''e''" and ?x4.0 = "CHR ''9''"
      and rest = "[DQUOTE]" and buf = "''x''" and strtod = decimal_strtod and pre = "[]"]
    string_escapes [where p = "\<lparr>start = [], cur = [BACKSLASH] @ ''x'' @ [DQUOTE], error = []\<rparr>"
      and e = "CHR ''x''" and rest = "[DQUOTE]" and buf = "''x''"
      and strtod = decimal_strtod and pre = "''ab''"]
  by (simp add: escape_table_def plain_def loop_close c_str_def)

subsection \<open>String literals: the four characters of a unicode escape\<close>

lemma json_parse_unicode_literal:
  assumes "plain pre" "plain post" "x1 \<noteq> NUL" "x2 \<noteq> NUL" "x3 \<noteq> NUL" "x4 \<noteq> NUL"
  shows "json_parse strtod (DQUOTE # pre @ [BACKSLASH, CHR ''u'', x1, x2, x3, x4] @ post @ [DQUOTE])
     = Inr (JString (pre @ [BACKSLASH, CHR ''u'', x1, x2, x3, x4] @ post))"
proof -
  let ?esc = "[BACKSLASH, CHR ''u'', x1, x2, x3, x4]"
  let ?body = "pre @ ?esc @ post @ [DQUOTE]"
  let ?p = "\<lparr>start = DQUOTE # ?body, cur = ?body, error = []\<rparr>"
  have "string_literal_loop ?p [] = string_literal_loop (?p\<lparr>cur := ?esc @ post @ [DQUOTE]\<rparr>) ([] @ pre)"
    by (rule loop_plain_run [OF assms(1)]) simp
  also have "\<dots> = string_literal_loop (?p\<lparr>cur := post @ [DQUOTE]\<rparr>) (pre @ ?esc)"
    using assms(3-6) by (simp add: loop_unicode)
  also have "\<dots> = string_literal_loop (?p\<lparr>cur := post @ [DQUOTE], cur := [DQUOTE]\<rparr>) ((pre @ ?esc) @ post)"
    by (rule loop_plain_run [OF assms(2)]) simp
  also have "\<dots> = (Some (pre @ ?esc @ post), ?p\<lparr>cur := []\<rparr>)"
    by (simp add: loop_close)
  finally have "string_literal_loop ?p [] = (Some (pre @ ?esc @ post), ?p\<lparr>cur := []\<rparr>)" .
  then show ?thesis
    by (rule json_parse_string) (simp_all add: json_skip_ws_def json_peek_def)
qed

text \<open>
  C10. The four characters behind \<^verbatim>\<open>\u\<close> are not checked to be hexadecimal digits. At
  any state of the loop of a string literal, a backslash, \<open>u\<close> and any four characters of
  the input are accepted: the six characters go into the buffer as they are, the cursor
  moves behind them and the error slot is not written. So a literal with such an escape
  between bytes that pass unchanged parses to the String of the same characters, and
  \<^verbatim>\<open>"\uZZZZ"\<close> gives the six characters \<^verbatim>\<open>\uZZZZ\<close>.
\<close>

theorem unicode_escape_unchecked:
  "(cur p = BACKSLASH # CHR ''u'' # x1 # x2 # x3 # x4 # rest
        \<and> x1 \<noteq> NUL \<and> x2 \<noteq> NUL \<and> x3 \<noteq> NUL \<and> x4 \<noteq> NUL \<longrightarrow>
      string_literal_loop p buf
        = string_literal_loop \<lparr>start = start p, cur = rest, error = error p\<rparr>
            (buf @ [BACKSLASH, CHR ''u'', x1, x2, x3, x4]))
   \<and> (plain pre \<and> plain post \<and> x1 \<noteq> NUL \<and> x2 \<noteq> NUL \<and> x3 \<noteq> NUL \<and> x4 \<noteq> NUL \<longrightarrow>
      json_parse strtod (DQUOTE # pre @ [BACKSLASH, CHR ''u'', x1, x2, x3, x4] @ post @ [DQUOTE])
        = Inr (JString (pre @ [BACKSLASH, CHR ''u'', x1, x2, x3, x4] @ post)))
   \<and> json_parse strtod ([DQUOTE, BACKSLASH] @ ''uZZZZ'' @ [DQUOTE])
        = Inr (JString ([BACKSLASH] @ ''uZZZZ''))"
proof -
  have step: "string_literal_loop p buf
        = string_literal_loop \<lparr>start = start p, cur = rest, error = error p\<rparr>
            (buf @ [BACKSLASH, CHR ''u'', x1, x2, x3, x4])"
    if "cur p = BACKSLASH # CHR ''u'' # x1 # x2 # x3 # x4 # rest"
      "x1 \<noteq> NUL" "x2 \<noteq> NUL" "x3 \<noteq> NUL" "x4 \<noteq> NUL"
  proof -
    have "p\<lparr>cur := rest\<rparr> = \<lparr>start = start p, cur = rest, error = error p\<rparr>"
      by simp
    with loop_unicode [OF that, of buf] show ?thesis by simp
  qed
  have ex: "json_parse strtod ([DQUOTE, BACKSLASH] @ ''uZZZZ'' @ [DQUOTE])
        = Inr (JString ([BACKSLASH] @ ''uZZZZ''))"
    by (simp add: parser_eval)
  show ?thesis
    using step json_parse_unicode_literal [of pre post x1 x2 x3 x4 strtod] ex by simp
qed

theorem unicode_escape_unchecked_witness:
  "string_literal_loop \<lparr>start = [], cur = [BACKSLASH] @ ''u?!zq'' @ [DQUOTE], error = []\<rparr> ''x''
     = (Some (''x'' @ [BACKSLASH] @ ''u?!zq''), \<lparr>start = [], cur = [], error = []\<rparr>)
   \<and> json_parse decimal_strtod ([DQUOTE] @ ''id '' @ [BACKSLASH] @ ''u?!zq'' @ '' end'' @ [DQUOTE])
     = Inr (JString (''id '' @ [BACKSLASH] @ ''u?!zq'' @ '' end''))"
  using unicode_escape_unchecked
    [where p = "\<lparr>start = [], cur = [BACKSLASH] @ ''u?!zq'' @ [DQUOTE], error = []\<rparr>"
      and ?x1.0 = "CHR ''?''" and ?x2.0 = "CHR ''!''" and ?x3.0 = "CHR ''z''" and ?x4.0 = "CHR ''q''"
      and rest = "[DQUOTE]" and buf = "''x''" and strtod = decimal_strtod
      and pre = "''id ''" and post = "'' end''"]
  by (simp add: plain_def loop_close)

subsection \<open>Numbers\<close>

lemma skip_digit_chars_digits:
  "\<forall>c\<in>set ds. is_digit c \<Longrightarrow> skip_digit_chars (ds @ rest) = skip_digit_chars rest"
  by (induction ds) (simp_all add: is_digit_def)

lemma skip_digit_chars_stop:
  "(case rest of [] \<Rightarrow> True | c # cs \<Rightarrow> \<not> is_digit c) \<Longrightarrow> skip_digit_chars rest = rest"
  by (cases rest) (auto simp add: is_digit_def)

lemma digits1_Cons: "digits1 ds \<Longrightarrow> \<exists>d ds'. ds = d # ds' \<and> is_digit d \<and> (\<forall>c\<in>set ds'. is_digit c)"
  by (cases ds) (simp_all add: digits1_def)

lemma scan_exponent:
  assumes "ex = [] \<or> (\<exists>e sn ed. ex = e # sn @ ed \<and> (e = CHR ''e'' \<or> e = CHR ''E'')
                          \<and> (sn = [] \<or> sn = ''+'' \<or> sn = ''-'') \<and> digits1 ed)"
    and "number_stop rest" and "cur p3 = ex @ rest"
  shows "(if json_peek p3 = CHR ''e'' \<or> json_peek p3 = CHR ''E'' then
           (let p4 = json_advance p3;
                p5 = (if json_peek p4 = CHR ''+'' \<or> json_peek p4 = CHR ''-''
                      then json_advance p4 else p4)
            in json_skip_digits p5)
         else p3) = p3\<lparr>cur := rest\<rparr>"
proof (cases "ex = []")
  case True
  with assms(2,3) show ?thesis
    by (cases rest) (simp_all add: json_peek_def number_stop_def)
next
  case False
  with assms(1) obtain e sn ed where ex: "ex = e # sn @ ed" "e = CHR ''e'' \<or> e = CHR ''E''"
    "sn = [] \<or> sn = ''+'' \<or> sn = ''-''" "digits1 ed" by blast
  from digits1_Cons [OF ex(4)] obtain d ds where ed: "ed = d # ds" "is_digit d" "\<forall>c\<in>set ds. is_digit c"
    by blast
  have stop: "skip_digit_chars rest = rest"
    using assms(2) by (intro skip_digit_chars_stop) (simp add: number_stop_def split: list.splits)
  have dig: "skip_digit_chars (ed @ rest) = rest"
    using ed stop skip_digit_chars_digits [of ed rest] by simp
  have d: "d \<noteq> CHR ''+''" "d \<noteq> CHR ''-''" using ed(2) by (auto simp add: is_digit_def)
  from ex(3) show ?thesis
    using ex(1,2) assms(3) dig d ed(1)
    by (auto simp add: json_peek_def json_advance_def json_skip_digits_def Let_def)
qed

lemma number_scan_grammar:
  assumes "number_grammar tok" "number_stop rest" "cur p = tok @ rest"
  shows "number_scan p = p\<lparr>cur := rest\<rparr>"
proof -
  from assms(1) obtain sg ip fr ex where tok: "tok = sg @ ip @ fr @ ex"
    and sg: "sg = [] \<or> sg = ''-''" and ip: "digits1 ip"
    and fr: "fr = [] \<or> (\<exists>fp. fr = CHR ''.'' # fp \<and> digits1 fp)"
    and ex: "ex = [] \<or> (\<exists>e sn ed. ex = e # sn @ ed \<and> (e = CHR ''e'' \<or> e = CHR ''E'')
                          \<and> (sn = [] \<or> sn = ''+'' \<or> sn = ''-'') \<and> digits1 ed)"
    unfolding number_grammar_def by blast
  from digits1_Cons [OF ip] obtain d ds where ipc: "ip = d # ds" "is_digit d" "\<forall>c\<in>set ds. is_digit c"
    by blast
  have dm: "d \<noteq> CHR ''-''" using ipc(2) by (auto simp add: is_digit_def)
  define p1 where "p1 = (if json_peek p = CHR ''-'' then json_advance p else p)"
  have p1: "p1 = p\<lparr>cur := ip @ fr @ ex @ rest\<rparr>"
    using sg assms(3) tok ipc(1) dm by (auto simp add: p1_def json_peek_def json_advance_def)
  define p2 where "p2 = json_skip_digits p1"
  have hd_after: "(case fr @ ex @ rest of [] \<Rightarrow> True | c # cs \<Rightarrow> \<not> is_digit c)"
    using fr ex assms(2)
    by (auto simp add: number_stop_def is_digit_def split: list.splits)
  have p2: "p2 = p\<lparr>cur := fr @ ex @ rest\<rparr>"
    using skip_digit_chars_digits [of ip "fr @ ex @ rest"] ipc ip skip_digit_chars_stop [OF hd_after]
    by (simp add: p2_def p1 json_skip_digits_def digits1_def)
  define p3 where "p3 = (if json_peek p2 = CHR ''.'' then json_skip_digits (json_advance p2) else p2)"
  have hd_ex: "(case ex @ rest of [] \<Rightarrow> True | c # cs \<Rightarrow> \<not> is_digit c \<and> c \<noteq> CHR ''.'')"
    using ex assms(2)
    by (auto simp add: number_stop_def is_digit_def split: list.splits)
  have p3: "p3 = p\<lparr>cur := ex @ rest\<rparr>"
  proof (cases "fr = []")
    case True
    with hd_ex show ?thesis
      by (cases "ex @ rest") (simp_all add: p3_def p2 json_peek_def)
  next
    case False
    with fr obtain fp where fp: "fr = CHR ''.'' # fp" "digits1 fp" by blast
    have "skip_digit_chars (ex @ rest) = ex @ rest"
      using hd_ex by (intro skip_digit_chars_stop) (simp split: list.splits)
    then have "skip_digit_chars (fp @ ex @ rest) = ex @ rest"
      using skip_digit_chars_digits [of fp "ex @ rest"] fp(2) by (simp add: digits1_def)
    then show ?thesis
      by (simp add: p3_def p2 fp(1) json_peek_def json_advance_def json_skip_digits_def)
  qed
  have "number_scan p =
      (if json_peek p3 = CHR ''e'' \<or> json_peek p3 = CHR ''E'' then
           (let p4 = json_advance p3;
                p5 = (if json_peek p4 = CHR ''+'' \<or> json_peek p4 = CHR ''-''
                      then json_advance p4 else p4)
            in json_skip_digits p5)
         else p3)"
    by (simp add: number_scan_def Let_def p1_def p2_def p3_def)
  also have "\<dots> = p3\<lparr>cur := rest\<rparr>"
    by (rule scan_exponent [OF ex assms(2)]) (simp add: p3)
  finally show ?thesis by (simp add: p3)
qed

lemma number_grammar_first:
  assumes "number_grammar tok"
  shows "\<exists>c cs. tok = c # cs \<and> (c = CHR ''-'' \<or> is_digit c)"
proof -
  from assms obtain sg ip fr ex where tok: "tok = sg @ ip @ fr @ ex"
    and sg: "sg = [] \<or> sg = ''-''" and ip: "digits1 ip"
    unfolding number_grammar_def by blast
  from digits1_Cons [OF ip] obtain d ds where "ip = d # ds" "is_digit d" by blast
  with tok sg show ?thesis by auto
qed

lemma number_start_distinct:
  assumes "c = CHR ''-'' \<or> is_digit c"
  shows "c \<noteq> DQUOTE" "c \<noteq> CHR ''{''" "c \<noteq> CHR ''[''" "c \<noteq> CHR ''t''" "c \<noteq> CHR ''f''"
    "c \<noteq> CHR ''n''" "c \<noteq> CHR '' ''" "c \<noteq> CHR 0x0A" "c \<noteq> CHR 0x0D" "c \<noteq> CHR 0x09"
  using assms by (auto simp add: is_digit_def)

lemma json_parse_value_number:
  assumes "cur p = c # cs" "c = CHR ''-'' \<or> is_digit c"
  shows "json_parse_value strtod p = (Some (JNumber (strtod (number_token p))), number_scan p)"
proof -
  note d = number_start_distinct [OF assms(2)]
  have ws: "json_skip_ws p = p"
    using assms(1) d by (simp add: json_skip_ws_def)
  have pk: "json_peek p = c" using assms(1) by (simp add: json_peek_def)
  have num: "c = CHR ''-'' \<or> (CHR ''0'' \<le> c \<and> c \<le> CHR ''9'')"
    using assms(2) by (simp add: is_digit_def)
  show ?thesis
    by (subst json_parse_value.simps)
       (simp only: ws pk Let_def d num if_False if_True json_parse_number_def fst_conv snd_conv)
qed

lemma error_number_scan: "error (number_scan p) = error p"
  by (simp add: number_scan_def Let_def json_advance_def json_skip_digits_def)

lemma json_parse_number_grammar:
  assumes "number_grammar tok"
  shows "json_parse strtod tok = Inr (JNumber (strtod tok))"
proof -
  let ?p = "\<lparr>start = tok, cur = tok, error = []\<rparr>"
  from number_grammar_first [OF assms] obtain c cs where c: "tok = c # cs" "c = CHR ''-'' \<or> is_digit c"
    by blast
  have scan: "number_scan ?p = ?p\<lparr>cur := []\<rparr>"
    by (rule number_scan_grammar [OF assms]) (simp_all add: number_stop_def)
  then have t: "number_token ?p = tok" by (simp add: number_token_def)
  have "json_parse_value strtod ?p = (Some (JNumber (strtod (number_token ?p))), number_scan ?p)"
    using c by (intro json_parse_value_number) simp_all
  then show ?thesis
    by (simp add: json_parse_def scan t json_skip_ws_def json_peek_def)
qed

lemma not_grammar_minus: "\<not> number_grammar ''-''"
  by (auto simp add: number_grammar_def digits1_def is_digit_def append_eq_Cons_conv Cons_eq_append_conv)

lemma not_grammar_dot: "\<not> number_grammar ''1.''"
  by (auto simp add: number_grammar_def digits1_def is_digit_def append_eq_Cons_conv Cons_eq_append_conv)

lemma skip_digit_chars_run:
  "digits0 ds \<Longrightarrow> \<not> next_is is_digit r \<Longrightarrow> skip_digit_chars (ds @ r) = r"
proof (induction ds)
  case Nil
  then show ?case by (cases r) (auto simp add: next_is_def is_digit_def)
next
  case (Cons d ds)
  then show ?case by (simp add: digits0_def is_digit_def)
qed

lemma number_scan_split:
  assumes "lenient_split (cur p) sg ip fr ex rest"
  shows "number_scan p = p\<lparr>cur := rest\<rparr>"
proof -
  from assms have s: "cur p = sg @ ip @ fr @ ex @ rest"
    and sg: "sg = ''-'' \<or> (sg = [] \<and> \<not> next_is (\<lambda>c. c = CHR ''-'') (cur p))"
    and ip: "digits0 ip" "\<not> next_is is_digit (fr @ ex @ rest)"
    and fr: "(\<exists>fp. fr = CHR ''.'' # fp \<and> digits0 fp \<and> \<not> next_is is_digit (ex @ rest))
           \<or> (fr = [] \<and> \<not> next_is (\<lambda>c. c = CHR ''.'') (ex @ rest))"
    and ex: "(\<exists>e sn ed. ex = e # sn @ ed \<and> (e = CHR ''e'' \<or> e = CHR ''E'')
                \<and> (sn = ''+'' \<or> sn = ''-''
                     \<or> (sn = [] \<and> \<not> next_is (\<lambda>c. c = CHR ''+'' \<or> c = CHR ''-'') (ed @ rest)))
                \<and> digits0 ed \<and> \<not> next_is is_digit rest)
           \<or> (ex = [] \<and> \<not> next_is (\<lambda>c. c = CHR ''e'' \<or> c = CHR ''E'') rest)"
    unfolding lenient_split_def by blast+
  define p1 where "p1 = (if json_peek p = CHR ''-'' then json_advance p else p)"
  define p2 where "p2 = json_skip_digits p1"
  define p3 where "p3 = (if json_peek p2 = CHR ''.'' then json_skip_digits (json_advance p2) else p2)"
  have p1: "p1 = p\<lparr>cur := ip @ fr @ ex @ rest\<rparr>"
  proof (cases "sg = ''-''")
    case True
    with s show ?thesis by (simp add: p1_def json_peek_def json_advance_def)
  next
    case False
    with sg have e: "sg = []" and n: "\<not> next_is (\<lambda>c. c = CHR ''-'') (cur p)" by simp_all
    from n have "json_peek p \<noteq> CHR ''-''"
      by (cases "cur p") (simp_all add: json_peek_def next_is_def)
    with e s show ?thesis by (simp add: p1_def)
  qed
  have p2: "p2 = p\<lparr>cur := fr @ ex @ rest\<rparr>"
    using skip_digit_chars_run [OF ip] by (simp add: p2_def p1 json_skip_digits_def)
  have p3: "p3 = p\<lparr>cur := ex @ rest\<rparr>"
  proof (cases "fr = []")
    case True
    with fr have "\<not> next_is (\<lambda>c. c = CHR ''.'') (ex @ rest)" by simp
    then have "json_peek p2 \<noteq> CHR ''.''"
      by (cases "ex @ rest") (simp_all add: p2 True json_peek_def next_is_def)
    then show ?thesis by (simp add: p3_def p2 True)
  next
    case False
    with fr obtain fp where fp: "fr = CHR ''.'' # fp" "digits0 fp" "\<not> next_is is_digit (ex @ rest)"
      by blast
    from skip_digit_chars_run [OF fp(2,3)] show ?thesis
      by (simp add: p3_def p2 fp(1) json_peek_def json_advance_def json_skip_digits_def)
  qed
  have scan: "number_scan p =
      (if json_peek p3 = CHR ''e'' \<or> json_peek p3 = CHR ''E'' then
           (let p4 = json_advance p3;
                p5 = (if json_peek p4 = CHR ''+'' \<or> json_peek p4 = CHR ''-''
                      then json_advance p4 else p4)
            in json_skip_digits p5)
         else p3)"
    by (simp add: number_scan_def Let_def p1_def p2_def p3_def)
  show ?thesis
  proof (cases "ex = []")
    case True
    with ex have "\<not> next_is (\<lambda>c. c = CHR ''e'' \<or> c = CHR ''E'') rest" by simp
    then have "\<not> (json_peek p3 = CHR ''e'' \<or> json_peek p3 = CHR ''E'')"
      by (cases rest) (simp_all add: p3 True json_peek_def next_is_def)
    with scan show ?thesis by (simp add: p3 True)
  next
    case False
    with ex obtain e sn ed where e: "ex = e # sn @ ed" "e = CHR ''e'' \<or> e = CHR ''E''"
      and sn: "sn = ''+'' \<or> sn = ''-''
           \<or> (sn = [] \<and> \<not> next_is (\<lambda>c. c = CHR ''+'' \<or> c = CHR ''-'') (ed @ rest))"
      and ed: "digits0 ed" "\<not> next_is is_digit rest"
      by blast
    have pk: "json_peek p3 = CHR ''e'' \<or> json_peek p3 = CHR ''E''"
      using e by (simp add: p3 json_peek_def)
    define p4 where "p4 = json_advance p3"
    have p4: "p4 = p\<lparr>cur := sn @ ed @ rest\<rparr>"
      by (simp add: p4_def p3 e(1) json_advance_def)
    define p5 where "p5 = (if json_peek p4 = CHR ''+'' \<or> json_peek p4 = CHR ''-''
                      then json_advance p4 else p4)"
    have p5: "p5 = p\<lparr>cur := ed @ rest\<rparr>"
    proof (cases "sn = []")
      case True
      with sn have "\<not> next_is (\<lambda>c. c = CHR ''+'' \<or> c = CHR ''-'') (ed @ rest)" by simp
      then have "\<not> (json_peek p4 = CHR ''+'' \<or> json_peek p4 = CHR ''-'')"
        by (cases "ed @ rest") (simp_all add: p4 True json_peek_def next_is_def)
      then show ?thesis by (simp add: p5_def p4 True)
    next
      case False
      with sn have "sn = ''+'' \<or> sn = ''-''" by simp
      then show ?thesis
        by (auto simp add: p5_def p4 json_peek_def json_advance_def)
    qed
    have "number_scan p = json_skip_digits p5"
      using scan pk by (simp add: Let_def p4_def p5_def)
    also have "\<dots> = p\<lparr>cur := rest\<rparr>"
      using skip_digit_chars_run [OF ed] by (simp add: p5 json_skip_digits_def)
    finally show ?thesis .
  qed
qed

lemma number_token_split:
  assumes "lenient_split (cur p) sg ip fr ex rest"
  shows "number_token p = sg @ ip @ fr @ ex"
proof -
  from assms have s: "cur p = sg @ ip @ fr @ ex @ rest"
    by (simp add: lenient_split_def)
  show ?thesis
    by (simp add: number_token_def number_scan_split [OF assms] s)
qed

lemma split_digits:
  obtains ds r where "s = ds @ r" "digits0 ds" "\<not> next_is is_digit r"
proof
  show "s = takeWhile is_digit s @ dropWhile is_digit s" by simp
  show "digits0 (takeWhile is_digit s)"
    by (auto simp add: digits0_def dest: set_takeWhileD)
  show "\<not> next_is is_digit (dropWhile is_digit s)"
    by (induction s) (simp_all add: next_is_def)
qed

lemma split_fraction:
  obtains fr r where "s = fr @ r"
    "(\<exists>fp. fr = CHR ''.'' # fp \<and> digits0 fp \<and> \<not> next_is is_digit r)
       \<or> (fr = [] \<and> \<not> next_is (\<lambda>c. c = CHR ''.'') r)"
proof (cases "next_is (\<lambda>c. c = CHR ''.'') s")
  case False
  show ?thesis by (rule that [of "[]" s]) (simp_all add: False)
next
  case True
  then obtain t where t: "s = CHR ''.'' # t"
    by (cases s) (simp_all add: next_is_def)
  obtain fp r where "t = fp @ r" "digits0 fp" "\<not> next_is is_digit r"
    by (rule split_digits)
  with t show ?thesis by (intro that [of "CHR ''.'' # fp" r]) simp_all
qed

lemma split_exponent:
  obtains ex rest where "s = ex @ rest"
    "(\<exists>e sn ed. ex = e # sn @ ed \<and> (e = CHR ''e'' \<or> e = CHR ''E'')
                \<and> (sn = ''+'' \<or> sn = ''-''
                     \<or> (sn = [] \<and> \<not> next_is (\<lambda>c. c = CHR ''+'' \<or> c = CHR ''-'') (ed @ rest)))
                \<and> digits0 ed \<and> \<not> next_is is_digit rest)
           \<or> (ex = [] \<and> \<not> next_is (\<lambda>c. c = CHR ''e'' \<or> c = CHR ''E'') rest)"
proof (cases "next_is (\<lambda>c. c = CHR ''e'' \<or> c = CHR ''E'') s")
  case False
  show ?thesis by (rule that [of "[]" s]) (simp_all add: False)
next
  case True
  then obtain e t where t: "s = e # t" "e = CHR ''e'' \<or> e = CHR ''E''"
    by (cases s) (simp_all add: next_is_def)
  show ?thesis
  proof (cases "next_is (\<lambda>c. c = CHR ''+'' \<or> c = CHR ''-'') t")
    case False
    obtain ed rest where r: "t = ed @ rest" "digits0 ed" "\<not> next_is is_digit rest"
      by (rule split_digits)
    show ?thesis
    proof (rule that [of "e # [] @ ed" rest])
      show "s = (e # [] @ ed) @ rest" using t r by simp
      show "(\<exists>e' sn ed'. e # [] @ ed = e' # sn @ ed' \<and> (e' = CHR ''e'' \<or> e' = CHR ''E'')
                \<and> (sn = ''+'' \<or> sn = ''-''
                     \<or> (sn = [] \<and> \<not> next_is (\<lambda>c. c = CHR ''+'' \<or> c = CHR ''-'') (ed' @ rest)))
                \<and> digits0 ed' \<and> \<not> next_is is_digit rest)
           \<or> (e # [] @ ed = [] \<and> \<not> next_is (\<lambda>c. c = CHR ''e'' \<or> c = CHR ''E'') rest)"
        using t(2) r False
        by (intro disjI1 exI [of _ e] exI [of _ "[]"] exI [of _ ed]) simp
    qed
  next
    case True
    then obtain c u where u: "t = c # u" "c = CHR ''+'' \<or> c = CHR ''-''"
      by (cases t) (simp_all add: next_is_def)
    obtain ed rest where r: "u = ed @ rest" "digits0 ed" "\<not> next_is is_digit rest"
      by (rule split_digits)
    show ?thesis
    proof (rule that [of "e # [c] @ ed" rest])
      show "s = (e # [c] @ ed) @ rest" using t u r by simp
      show "(\<exists>e' sn ed'. e # [c] @ ed = e' # sn @ ed' \<and> (e' = CHR ''e'' \<or> e' = CHR ''E'')
                \<and> (sn = ''+'' \<or> sn = ''-''
                     \<or> (sn = [] \<and> \<not> next_is (\<lambda>c. c = CHR ''+'' \<or> c = CHR ''-'') (ed' @ rest)))
                \<and> digits0 ed' \<and> \<not> next_is is_digit rest)
           \<or> (e # [c] @ ed = [] \<and> \<not> next_is (\<lambda>c. c = CHR ''e'' \<or> c = CHR ''E'') rest)"
        using t(2) u(2) r
        by (intro disjI1 exI [of _ e] exI [of _ "[c]"] exI [of _ ed]) auto
    qed
  qed
qed

lemma lenient_split_exists: "\<exists>sg ip fr ex rest. lenient_split s sg ip fr ex rest"
proof -
  obtain sg s1 where sg: "s = sg @ s1" "sg = ''-'' \<or> (sg = [] \<and> \<not> next_is (\<lambda>c. c = CHR ''-'') s)"
  proof (cases "next_is (\<lambda>c. c = CHR ''-'') s")
    case True
    then obtain t where "s = CHR ''-'' # t" by (cases s) (simp_all add: next_is_def)
    then show ?thesis by (intro that [of "''-''" t]) simp_all
  next
    case False
    then show ?thesis by (intro that [of "[]" s]) simp_all
  qed
  obtain ip s2 where ip: "s1 = ip @ s2" "digits0 ip" "\<not> next_is is_digit s2"
    by (rule split_digits)
  obtain fr s3 where fr: "s2 = fr @ s3"
    "(\<exists>fp. fr = CHR ''.'' # fp \<and> digits0 fp \<and> \<not> next_is is_digit s3)
       \<or> (fr = [] \<and> \<not> next_is (\<lambda>c. c = CHR ''.'') s3)"
    by (rule split_fraction)
  obtain ex rest where ex: "s3 = ex @ rest"
    "(\<exists>e sn ed. ex = e # sn @ ed \<and> (e = CHR ''e'' \<or> e = CHR ''E'')
                \<and> (sn = ''+'' \<or> sn = ''-''
                     \<or> (sn = [] \<and> \<not> next_is (\<lambda>c. c = CHR ''+'' \<or> c = CHR ''-'') (ed @ rest)))
                \<and> digits0 ed \<and> \<not> next_is is_digit rest)
           \<or> (ex = [] \<and> \<not> next_is (\<lambda>c. c = CHR ''e'' \<or> c = CHR ''E'') rest)"
    by (rule split_exponent)
  have "lenient_split s sg ip fr ex rest"
    unfolding lenient_split_def
    using sg ip fr ex by simp
  then show ?thesis by blast
qed

lemma json_parse_lenient_token:
  assumes "c = CHR ''-'' \<or> is_digit c" "lenient_split (c # cs) sg ip fr ex []"
  shows "json_parse strtod (c # cs) = Inr (JNumber (strtod (c # cs)))"
proof -
  let ?p = "\<lparr>start = c # cs, cur = c # cs, error = []\<rparr>"
  from assms(2) have sp: "lenient_split (cur ?p) sg ip fr ex []" by simp
  have tok: "number_token ?p = c # cs"
    using number_token_split [OF sp] assms(2) by (simp add: lenient_split_def)
  have scan: "number_scan ?p = ?p\<lparr>cur := []\<rparr>"
    by (rule number_scan_split [OF sp])
  have "json_parse_value strtod ?p = (Some (JNumber (strtod (number_token ?p))), number_scan ?p)"
    using assms(1) by (intro json_parse_value_number) simp_all
  then show ?thesis
    by (simp add: json_parse_def tok scan json_skip_ws_def json_peek_def)
qed

text \<open>
  C1, as the claim states it, fails: the lone \<^verbatim>\<open>-\<close> and \<^verbatim>\<open>1.\<close> do not match the grammar,
  and \<^verbatim>\<open>json_parse\<close> returns a Number for both.
\<close>

theorem number_grammar_counterexample:
  "\<not> number_grammar ''-'' \<and> json_parse decimal_strtod ''-'' = Inr (JNumber 0)
   \<and> \<not> number_grammar ''1.'' \<and> json_parse decimal_strtod ''1.'' = Inr (JNumber 1)"
proof -
  have "json_parse decimal_strtod ''-'' = Inr (JNumber 0)"
    by (simp add: parser_eval decimal_eval)
  moreover have "json_parse decimal_strtod ''1.'' = Inr (JNumber 1)"
    by (simp add: parser_eval decimal_eval)
  ultimately show ?thesis
    using not_grammar_minus not_grammar_dot by simp
qed

text \<open>
  C1, amended. Where the value starts with \<^verbatim>\<open>-\<close> or a digit, \<^verbatim>\<open>json_parse_value\<close> never
  fails: it returns the Number that \<^verbatim>\<open>strtod\<close> makes of the scanned bytes and leaves the
  error slot as it was. The scanned bytes are those of the grammar
  \<^verbatim>\<open>'-'? digit* ('.' digit*)? (('e'|'E') ('+'|'-')? digit*)?\<close> read from the left: every
  input has a split into sign, digits, fraction, exponent and rest, and for every such
  split the token is sign, digits, fraction and exponent together and the cursor is left
  at the rest. So an input that is such a token as a whole is accepted as the conversion
  of its text, be it \<^verbatim>\<open>-\<close>, \<^verbatim>\<open>1.\<close> or \<^verbatim>\<open>1e\<close>; and a token of the grammar of the spec,
  followed by the end of the input or by a byte that continues no number, is scanned whole
  and gives the conversion of the token.
\<close>

theorem number_scan_lenient:
  "(cur p = c # cs \<and> (c = CHR ''-'' \<or> is_digit c) \<longrightarrow>
      json_parse_value strtod p = (Some (JNumber (strtod (number_token p))), number_scan p)
      \<and> error (number_scan p) = error p)
   \<and> (\<exists>sg ip fr ex rest. lenient_split s sg ip fr ex rest)
   \<and> (lenient_split (cur p) sg ip fr ex rest \<longrightarrow>
      number_token p = sg @ ip @ fr @ ex \<and> number_scan p = p\<lparr>cur := rest\<rparr>
      \<and> json_parse_number strtod p = (JNumber (strtod (sg @ ip @ fr @ ex)), p\<lparr>cur := rest\<rparr>))
   \<and> (cur p = c # cs \<and> (c = CHR ''-'' \<or> is_digit c) \<and> lenient_split (cur p) sg ip fr ex rest \<longrightarrow>
      json_parse_value strtod p = (Some (JNumber (strtod (sg @ ip @ fr @ ex))), p\<lparr>cur := rest\<rparr>))
   \<and> ((c = CHR ''-'' \<or> is_digit c) \<and> lenient_split (c # cs) sg ip fr ex [] \<longrightarrow>
      json_parse strtod (c # cs) = Inr (JNumber (strtod (c # cs))))
   \<and> (number_grammar tok \<and> number_stop rest \<and> cur p = tok @ rest \<longrightarrow>
      json_parse_value strtod p = (Some (JNumber (strtod tok)), p\<lparr>cur := rest\<rparr>))
   \<and> (number_grammar tok \<longrightarrow> json_parse strtod tok = Inr (JNumber (strtod tok)))
   \<and> json_parse strtod ''-'' = Inr (JNumber (strtod ''-''))
   \<and> json_parse strtod ''1.'' = Inr (JNumber (strtod ''1.''))
   \<and> json_parse strtod ''1e'' = Inr (JNumber (strtod ''1e''))"
proof -
  have a: "json_parse_value strtod p = (Some (JNumber (strtod (number_token p))), number_scan p)"
    if "cur p = c # cs" "c = CHR ''-'' \<or> is_digit c"
    using that by (rule json_parse_value_number)
  have sp: "number_token p = sg @ ip @ fr @ ex \<and> number_scan p = p\<lparr>cur := rest\<rparr>
      \<and> json_parse_number strtod p = (JNumber (strtod (sg @ ip @ fr @ ex)), p\<lparr>cur := rest\<rparr>)"
    if "lenient_split (cur p) sg ip fr ex rest"
    using number_token_split [OF that] number_scan_split [OF that]
    by (simp add: json_parse_number_def)
  have val: "json_parse_value strtod p = (Some (JNumber (strtod (sg @ ip @ fr @ ex))), p\<lparr>cur := rest\<rparr>)"
    if "cur p = c # cs" "c = CHR ''-'' \<or> is_digit c" "lenient_split (cur p) sg ip fr ex rest"
    using a [OF that(1,2)] number_token_split [OF that(3)] number_scan_split [OF that(3)] by simp
  have whole: "json_parse strtod (c # cs) = Inr (JNumber (strtod (c # cs)))"
    if "c = CHR ''-'' \<or> is_digit c" "lenient_split (c # cs) sg ip fr ex []"
    using that by (rule json_parse_lenient_token)
  have b: "json_parse_value strtod p = (Some (JNumber (strtod tok)), p\<lparr>cur := rest\<rparr>)"
    if g: "number_grammar tok" "number_stop rest" "cur p = tok @ rest"
  proof -
    from number_grammar_first [OF g(1)] obtain d ds where d: "tok = d # ds" "d = CHR ''-'' \<or> is_digit d"
      by blast
    have scan: "number_scan p = p\<lparr>cur := rest\<rparr>" using g by (rule number_scan_grammar)
    then have "number_token p = tok" using g(3) by (simp add: number_token_def)
    moreover have "json_parse_value strtod p
        = (Some (JNumber (strtod (number_token p))), number_scan p)"
      using d g(3) by (intro json_parse_value_number) simp_all
    ultimately show ?thesis using scan by simp
  qed
  have e1: "json_parse strtod ''-'' = Inr (JNumber (strtod ''-''))" by (simp add: parser_eval)
  have e2: "json_parse strtod ''1.'' = Inr (JNumber (strtod ''1.''))" by (simp add: parser_eval)
  have e3: "json_parse strtod ''1e'' = Inr (JNumber (strtod ''1e''))" by (simp add: parser_eval)
  have c1: "cur p = c # cs \<and> (c = CHR ''-'' \<or> is_digit c) \<longrightarrow>
      json_parse_value strtod p = (Some (JNumber (strtod (number_token p))), number_scan p)
      \<and> error (number_scan p) = error p"
    using a error_number_scan [of p] by blast
  have c3: "lenient_split (cur p) sg ip fr ex rest \<longrightarrow>
      number_token p = sg @ ip @ fr @ ex \<and> number_scan p = p\<lparr>cur := rest\<rparr>
      \<and> json_parse_number strtod p = (JNumber (strtod (sg @ ip @ fr @ ex)), p\<lparr>cur := rest\<rparr>)"
    using sp by blast
  have c4: "cur p = c # cs \<and> (c = CHR ''-'' \<or> is_digit c) \<and> lenient_split (cur p) sg ip fr ex rest \<longrightarrow>
      json_parse_value strtod p = (Some (JNumber (strtod (sg @ ip @ fr @ ex))), p\<lparr>cur := rest\<rparr>)"
    using val by blast
  have c5: "(c = CHR ''-'' \<or> is_digit c) \<and> lenient_split (c # cs) sg ip fr ex [] \<longrightarrow>
      json_parse strtod (c # cs) = Inr (JNumber (strtod (c # cs)))"
    using whole by blast
  have c6: "number_grammar tok \<and> number_stop rest \<and> cur p = tok @ rest \<longrightarrow>
      json_parse_value strtod p = (Some (JNumber (strtod tok)), p\<lparr>cur := rest\<rparr>)"
    using b by blast
  have c7: "number_grammar tok \<longrightarrow> json_parse strtod tok = Inr (JNumber (strtod tok))"
    using json_parse_number_grammar [of tok strtod] by blast
  show ?thesis
    by (intro conjI c1 lenient_split_exists c3 c4 c5 c6 c7 e1 e2 e3)
qed

theorem number_scan_lenient_witness:
  "json_parse_value decimal_strtod \<lparr>start = ''[-3.5e2, 1]'', cur = ''-3.5e2, 1]'', error = []\<rparr>
     = (Some (JNumber (- 350)), \<lparr>start = ''[-3.5e2, 1]'', cur = '', 1]'', error = []\<rparr>)
   \<and> json_parse decimal_strtod ''-3.5e2'' = Inr (JNumber (- 350))
   \<and> json_parse_value decimal_strtod \<lparr>start = ''[1e,2]'', cur = ''1e,2]'', error = []\<rparr>
     = (Some (JNumber 1), \<lparr>start = ''[1e,2]'', cur = '',2]'', error = []\<rparr>)
   \<and> number_token \<lparr>start = ''[1e,2]'', cur = ''1e,2]'', error = []\<rparr> = ''1e''
   \<and> json_parse decimal_strtod ''-.e+'' = Inr (JNumber 0)"
proof -
  have g: "number_grammar ''-3.5e2''"
    unfolding number_grammar_def
    apply (rule exI [of _ "''-''"], rule exI [of _ "''3''"], rule exI [of _ "''.5''"],
        rule exI [of _ "''e2''"])
    apply (simp add: digits1_def is_digit_def)
    apply (rule exI [of _ "[]"])
    apply simp
    done
  have s: "number_stop '', 1]''" by (simp add: number_stop_def is_digit_def)
  have d: "decimal_strtod ''-3.5e2'' = - 350" "decimal_strtod ''1e'' = 1" "decimal_strtod ''-.e+'' = 0"
    by (simp_all add: decimal_eval)
  have l1: "lenient_split ''1e,2]'' [] ''1'' [] ''e'' '',2]''"
    unfolding lenient_split_def
    by (simp add: next_is_def digits0_def is_digit_def)
  have l2: "lenient_split ''-.e+'' ''-'' [] ''.'' ''e+'' []"
    unfolding lenient_split_def
    apply (simp add: next_is_def digits0_def is_digit_def)
    apply (rule exI [of _ "''+''"])
    apply simp
    done
  show ?thesis
    using number_scan_lenient [where p = "\<lparr>start = ''[-3.5e2, 1]'', cur = ''-3.5e2, 1]'', error = []\<rparr>"
        and tok = "''-3.5e2''" and rest = "'', 1]''" and strtod = decimal_strtod
        and c = "CHR ''-''" and cs = "''3.5e2, 1]''"]
      number_scan_lenient [where p = "\<lparr>start = ''[1e,2]'', cur = ''1e,2]'', error = []\<rparr>"
        and sg = "[]" and ip = "''1''" and fr = "[]" and ex = "''e''" and rest = "'',2]''"
        and strtod = decimal_strtod and c = "CHR ''1''" and cs = "''e,2]''"]
      number_scan_lenient [where sg = "''-''" and ip = "[]" and fr = "''.''" and ex = "''e+''"
        and strtod = decimal_strtod and c = "CHR ''-''" and cs = "''.e+''"
        and p = "\<lparr>start = [], cur = [], error = []\<rparr>"]
      g s d l1 l2
    by (simp add: number_token_def number_scan_def json_peek_def json_advance_def
        json_skip_digits_def Let_def is_digit_def)
qed

subsection \<open>The error latch\<close>

lemma latched_refl [simp]: "latched p p"
  by (simp add: latched_def)

lemma latched_trans: "latched p q \<Longrightarrow> latched q r \<Longrightarrow> latched p r"
  by (auto simp add: latched_def)

lemma latched_cur [simp]: "latched p (p\<lparr>cur := c\<rparr>)"
  by (simp add: latched_def)

lemma latched_json_error [simp]: "latched p (json_error p m)"
  by (simp add: latched_def json_error_def)

lemma latched_json_next [simp]: "latched p (snd (json_next p))"
  by (simp add: latched_def json_next_def split: list.splits)

lemma latched_json_expect [simp]: "latched p (json_expect p ch)"
  by (auto simp add: json_expect_alt intro: latched_trans [OF latched_json_next])

lemma latched_json_skip_ws [simp]: "latched p (json_skip_ws p)"
  by (simp add: json_skip_ws_def)

lemma latched_number_scan [simp]: "latched p (number_scan p)"
  by (simp add: latched_def error_number_scan)

lemma latched_json_parse_number [simp]: "latched p (snd (json_parse_number f p))"
  by (simp add: json_parse_number_def)

lemma latched_json_parse_literal [simp]: "latched p (snd (json_parse_literal p lit ty b))"
  by (simp add: json_parse_literal_def Let_def)

lemma latched_next_trans: "latched p q \<Longrightarrow> latched p (snd (json_next q))"
  by (rule latched_trans [OF _ latched_json_next])

lemma latched_error_trans: "latched p q \<Longrightarrow> latched p (json_error q m)"
  by (rule latched_trans [OF _ latched_json_error])

lemma latched_expect_trans: "latched p q \<Longrightarrow> latched p (json_expect q c)"
  by (rule latched_trans [OF _ latched_json_expect])

lemma latched_ws_trans: "latched p q \<Longrightarrow> latched p (json_skip_ws q)"
  by (rule latched_trans [OF _ latched_json_skip_ws])

lemma latched_string_literal_loop: "latched p (snd (string_literal_loop p buf))"
proof (induction "length (cur p)" arbitrary: p buf rule: less_induct)
  case less
  show ?case
  proof (cases "json_peek p \<noteq> NUL \<and> json_peek p \<noteq> DQUOTE")
    case False
    then show ?thesis
      by (subst string_literal_loop.simps) auto
  next
    case True
    then have p1: "length (cur (snd (json_next p))) < length (cur p)"
      by (simp add: json_next_shorter)
    have IH: "latched p (snd (string_literal_loop q b))"
      if "length (cur q) < length (cur p)" "latched p q" for q b
      using less.hyps [OF that(1), of b] that(2) by (rule latched_trans [rotated])
    show ?thesis
      using True
      by (subst string_literal_loop.simps)
         (auto simp add: Let_def split: option.splits
               intro!: IH json_next_length_trans p1 latched_next_trans latched_error_trans)
  qed
qed

lemma latched_json_parse_string_literal [simp]: "latched p (snd (json_parse_string_literal p))"
  unfolding json_parse_string_literal_def
  by (rule latched_trans [OF latched_json_expect latched_string_literal_loop])

lemma latched_parser:
  "latched p (snd (json_parse_value (f :: string \<Rightarrow> 'a) p))"
  "latched p (snd (json_parse_array f p))"
  "latched p (snd (json_parse_array_loop f p xs))"
  "latched p (snd (json_parse_object f p))"
  "latched p (snd (json_parse_object_loop f p es))"
proof (induction f p and f p and f p xs and f p and f p es
    rule: json_parse_value_json_parse_array_json_parse_array_loop_json_parse_object_json_parse_object_loop.induct)
  case (1 strtod p)
  let ?p1 = "json_skip_ws p"
  have obj: "latched p (snd (json_parse_object strtod ?p1))" if "json_peek ?p1 = CHR ''{''"
    by (rule latched_trans [OF latched_json_skip_ws "1.IH"(1) [OF refl refl _ that]])
       (simp add: that)
  have arr: "latched p (snd (json_parse_array strtod ?p1))" if "json_peek ?p1 = CHR ''[''"
    by (rule latched_trans [OF latched_json_skip_ws "1.IH"(3) [OF refl refl _ _ that]])
       (simp_all add: that)
  have str: "latched p (snd (json_parse_string_literal ?p1))"
    by (rule latched_trans [OF latched_json_skip_ws latched_json_parse_string_literal])
  have lit: "latched p (snd (json_parse_literal ?p1 l t b :: 'a JsonValue option \<times> JsonParser))" for l t b
    by (rule latched_trans [OF latched_json_skip_ws latched_json_parse_literal])
  have num: "latched p (snd (json_parse_number strtod ?p1))"
    by (rule latched_trans [OF latched_json_skip_ws latched_json_parse_number])
  have err: "latched p (json_error ?p1 m)" for m
    by (rule latched_trans [OF latched_json_skip_ws latched_json_error])
  show ?case
  proof (cases "json_peek ?p1 = DQUOTE")
    case True
    with str show ?thesis
      by (subst json_parse_value.simps) (auto simp add: Let_def split: prod.splits option.splits)
  next
    case nq: False
    show ?thesis
    proof (cases "json_peek ?p1 = CHR ''{''")
      case True
      with obj show ?thesis
        by (subst json_parse_value.simps) (simp add: Let_def)
    next
      case no: False
      show ?thesis
      proof (cases "json_peek ?p1 = CHR ''[''")
        case True
        with arr show ?thesis
          by (subst json_parse_value.simps) (simp add: Let_def)
      next
        case na: False
        with nq no lit num err show ?thesis
          by (subst json_parse_value.simps) (simp add: Let_def)
      qed
    qed
  qed
next
  case (2 strtod p)
  let ?p1 = "json_skip_ws (json_expect p (CHR ''[''))"
  have le1: "latched p ?p1"
    by (intro latched_ws_trans latched_expect_trans latched_refl)
  have loop: "latched p (snd (json_parse_array_loop strtod ?p1 (json_make_value JSON_ARRAY)))"
    if "json_peek ?p1 \<noteq> CHR '']''"
    by (rule latched_trans [OF le1 "2.IH" [OF refl that]])
  show ?case
    using le1 loop
    by (subst json_parse_array.simps) (auto simp add: Let_def intro: latched_expect_trans)
next
  case (3 strtod p items)
  let ?r = "json_parse_value strtod (json_skip_ws p)"
  let ?p1 = "json_skip_ws (snd ?r)"
  have r: "latched p (snd ?r)"
    by (rule latched_trans [OF latched_json_skip_ws "3.IH"(1)])
  have le1: "latched p ?p1"
    by (intro latched_ws_trans r)
  have loop: "latched p (snd (json_parse_array_loop strtod (json_expect ?p1 (CHR '','')) (json_array_push items x)))"
    if "fst ?r = Some x" "json_peek ?p1 = CHR '',''" for x
    by (rule latched_trans [OF latched_expect_trans [OF le1] "3.IH"(2) [OF refl that(1) refl that(2)]])
  show ?case
    using r loop le1
    by (subst json_parse_array_loop.simps)
       (auto simp add: Let_def split: option.splits
          intro!: latched_expect_trans latched_error_trans)
next
  case (4 strtod p)
  let ?p1 = "json_skip_ws (json_expect p (CHR ''{''))"
  have le1: "latched p ?p1"
    by (intro latched_ws_trans latched_expect_trans latched_refl)
  have loop: "latched p (snd (json_parse_object_loop strtod ?p1 (json_make_value JSON_OBJECT)))"
    if "json_peek ?p1 \<noteq> CHR ''}''"
    by (rule latched_trans [OF le1 "4.IH" [OF refl that]])
  show ?case
    using le1 loop
    by (subst json_parse_object.simps) (auto simp add: Let_def intro: latched_expect_trans)
next
  case (5 strtod p entries)
  let ?p1 = "json_skip_ws p"
  let ?k = "json_parse_string_literal ?p1"
  let ?p2 = "json_skip_ws (json_expect (json_skip_ws (snd ?k)) (CHR '':''))"
  let ?r = "json_parse_value strtod ?p2"
  let ?p3 = "json_skip_ws (snd ?r)"
  have le1: "latched p ?p1" by simp
  have le2: "latched p ?p2"
    by (intro latched_ws_trans latched_expect_trans
          latched_trans [OF le1 latched_json_parse_string_literal])
  have r: "latched p (snd ?r)" if "json_peek ?p1 = DQUOTE"
    by (rule latched_trans [OF le2 "5.IH"(1) [OF refl _ refl refl]]) (simp add: that)
  have le3: "latched p ?p3" if "json_peek ?p1 = DQUOTE"
    by (intro latched_ws_trans r that)
  have loop: "latched p (snd (json_parse_object_loop strtod (json_expect ?p3 (CHR '','')) (json_object_put entries (fst ?k) x)))"
    if "json_peek ?p1 = DQUOTE" "fst ?r = Some x" "json_peek ?p3 = CHR '',''" for x
    by (rule latched_trans [OF latched_expect_trans [OF le3 [OF that(1)]]
          "5.IH"(2) [OF refl _ refl refl refl that(2) refl that(3)]]) (simp add: that(1))
  show ?case
    using le1 r loop le3
    by (subst json_parse_object_loop.simps)
       (auto simp add: Let_def split: option.splits
          intro!: latched_expect_trans latched_error_trans)
qed

lemma json_error_nonempty: "error (json_error p m) \<noteq> []"
  by (cases m) (simp_all add: json_error_def)

lemma latched_nonempty: "latched p q \<Longrightarrow> error p \<noteq> [] \<Longrightarrow> error q \<noteq> []"
  by (simp add: latched_def)

lemma latched_empty: "latched p q \<Longrightarrow> error q = [] \<Longrightarrow> error p = []"
  by (auto simp add: latched_def)

lemma string_literal_loop_cases [case_names stop recurse fail]:
  obtains
    "string_literal_loop p buf =
       (if json_peek p \<noteq> DQUOTE then (None, json_error p ''Unterminated string literal'')
        else (Some buf, json_expect p DQUOTE))"
  | q b where "length (cur q) < length (cur p)" "string_literal_loop p buf = string_literal_loop q b"
  | q m where "m \<noteq> []" "string_literal_loop p buf = (None, json_error q m)"
proof (cases "json_peek p \<noteq> NUL \<and> json_peek p \<noteq> DQUOTE")
  case False
  then have "string_literal_loop p buf =
       (if json_peek p \<noteq> DQUOTE then (None, json_error p ''Unterminated string literal'')
        else (Some buf, json_expect p DQUOTE))"
    by (subst string_literal_loop.simps) auto
  then show ?thesis by (rule that(1))
next
  case True
  let ?ch = "fst (json_next p)" and ?p1 = "snd (json_next p)"
  let ?ch2 = "fst (json_next ?p1)" and ?p2 = "snd (json_next ?p1)"
  let ?p6 = "snd (json_next (snd (json_next (snd (json_next (snd (json_next ?p2)))))))"
  from True have p1: "length (cur ?p1) < length (cur p)"
    by (simp add: json_next_shorter)
  then have p2: "length (cur ?p2) < length (cur p)"
    by (rule json_next_length_trans)
  have p6: "length (cur ?p6) < length (cur p)"
    by (rule json_next_length_trans [OF json_next_length_trans
          [OF json_next_length_trans [OF json_next_length_trans [OF p2]]]])
  show ?thesis
  proof (cases "?ch = BACKSLASH")
    case False
    with True have "string_literal_loop p buf = string_literal_loop ?p1 (buf @ [?ch])"
      by (subst string_literal_loop.simps) (simp add: Let_def)
    with p1 show ?thesis by (rule that(2))
  next
    case bs: True
    show ?thesis
    proof (cases "?ch2 = NUL")
      case True
      with \<open>json_peek p \<noteq> NUL \<and> json_peek p \<noteq> DQUOTE\<close> bs
      have "string_literal_loop p buf = (None, json_error ?p2 ''Unterminated escape sequence'')"
        by (subst string_literal_loop.simps) (simp add: Let_def)
      then show ?thesis by (intro that(3)) simp_all
    next
      case nz: False
      show ?thesis
      proof (cases "?ch2 = CHR ''u''")
        case True
        with \<open>json_peek p \<noteq> NUL \<and> json_peek p \<noteq> DQUOTE\<close> bs
        have "string_literal_loop p buf
            = string_literal_loop ?p6
                (buf @ [BACKSLASH, CHR ''u'', fst (json_next ?p2),
                   fst (json_next (snd (json_next ?p2))),
                   fst (json_next (snd (json_next (snd (json_next ?p2))))),
                   fst (json_next (snd (json_next (snd (json_next (snd (json_next ?p2)))))))])"
          by (subst string_literal_loop.simps) (simp add: Let_def)
        with p6 show ?thesis by (rule that(2))
      next
        case nu: False
        show ?thesis
        proof (cases "escape_byte ?ch2")
          case None
          with \<open>json_peek p \<noteq> NUL \<and> json_peek p \<noteq> DQUOTE\<close> bs nz nu
          have "string_literal_loop p buf = (None, json_error ?p2 ''Invalid escape sequence'')"
            by (subst string_literal_loop.simps) (simp add: Let_def)
          then show ?thesis by (intro that(3)) simp_all
        next
          case (Some b)
          with \<open>json_peek p \<noteq> NUL \<and> json_peek p \<noteq> DQUOTE\<close> bs nz nu
          have "string_literal_loop p buf = string_literal_loop ?p2 (buf @ [b])"
            by (subst string_literal_loop.simps) (simp add: Let_def)
          with p2 show ?thesis by (rule that(2))
        qed
      qed
    qed
  qed
qed

lemma string_literal_loop_None:
  "fst (string_literal_loop p buf) = None \<Longrightarrow> error (snd (string_literal_loop p buf)) \<noteq> []"
proof (induction "length (cur p)" arbitrary: p buf rule: less_induct)
  case less
  show ?case
  proof (cases rule: string_literal_loop_cases [where p = p and buf = buf])
    case stop
    with less.prems show ?thesis
      by (auto simp add: json_error_nonempty split: if_splits)
  next
    case (recurse q b)
    with less.hyps [OF recurse(1), of b] less.prems show ?thesis by simp
  next
    case (fail q m)
    then show ?thesis by (simp add: json_error_nonempty)
  qed
qed

lemma json_parse_string_literal_None:
  "fst (json_parse_string_literal p) = None \<Longrightarrow> error (snd (json_parse_string_literal p)) \<noteq> []"
  unfolding json_parse_string_literal_def by (rule string_literal_loop_None)






subsection \<open>Objects\<close>

lemma keys_present_push:
  "keys_present (JArray xs) \<Longrightarrow> keys_present x \<Longrightarrow> keys_present (json_array_push (JArray xs) x)"
  by simp

lemma keys_present_put:
  "keys_present (JObject es) \<Longrightarrow> keys_present v \<Longrightarrow> keys_present (json_object_put (JObject es) (Some k) v)"
  by simp

lemma keys_parser:
  "error (snd (json_parse_value (f :: string \<Rightarrow> 'a) p)) = [] \<Longrightarrow>
     (case fst (json_parse_value f p) of None \<Rightarrow> True | Some v \<Rightarrow> keys_present v)"
  "error (snd (json_parse_array f p)) = [] \<Longrightarrow> keys_present (fst (json_parse_array f p))"
  "error (snd (json_parse_array_loop f p a)) = [] \<Longrightarrow> \<exists>xs. a = JArray xs \<Longrightarrow> keys_present a \<Longrightarrow>
     keys_present (fst (json_parse_array_loop f p a))"
  "error (snd (json_parse_object f p)) = [] \<Longrightarrow> keys_present (fst (json_parse_object f p))"
  "error (snd (json_parse_object_loop f p ob)) = [] \<Longrightarrow> \<exists>es. ob = JObject es \<Longrightarrow> keys_present ob \<Longrightarrow>
     keys_present (fst (json_parse_object_loop f p ob))"
proof (induction f p and f p and f p a and f p and f p ob
    rule: json_parse_value_json_parse_array_json_parse_array_loop_json_parse_object_json_parse_object_loop.induct)
  case (1 strtod p)
  let ?p1 = "json_skip_ws p"
  note eq = json_parse_value.simps [of strtod p]
  show ?case
  proof (cases "json_peek ?p1 = DQUOTE")
    case True
    then show ?thesis
      unfolding eq by (auto simp add: Let_def split: prod.splits option.splits)
  next
    case nq: False
    show ?thesis
    proof (cases "json_peek ?p1 = CHR ''{''")
      case True
      with "1.prems" have "error (snd (json_parse_object strtod ?p1)) = []"
        unfolding eq by (simp add: Let_def)
      then have "keys_present (fst (json_parse_object strtod ?p1))"
        by (rule "1.IH"(1) [OF refl refl nq True])
      with True show ?thesis unfolding eq by (simp add: Let_def)
    next
      case no: False
      show ?thesis
      proof (cases "json_peek ?p1 = CHR ''[''")
        case True
        with "1.prems" have "error (snd (json_parse_array strtod ?p1)) = []"
          unfolding eq by (simp add: Let_def)
        then have "keys_present (fst (json_parse_array strtod ?p1))"
          by (rule "1.IH"(3) [OF refl refl nq no True])
        with True show ?thesis unfolding eq by (simp add: Let_def)
      next
        case na: False
        with nq no show ?thesis
          unfolding eq
          by (auto simp add: Let_def json_parse_literal_def json_parse_number_def json_make_value_def
                split: option.splits if_splits)
      qed
    qed
  qed
next
  case (2 strtod p)
  let ?p1 = "json_skip_ws (json_expect p (CHR ''[''))"
  note eq = json_parse_array.simps [of strtod p]
  show ?case
  proof (cases "json_peek ?p1 = CHR '']''")
    case True
    then show ?thesis unfolding eq by (simp add: Let_def json_make_value_def)
  next
    case False
    with "2.prems" have "error (snd (json_parse_array_loop strtod ?p1 (json_make_value JSON_ARRAY))) = []"
      unfolding eq by (simp add: Let_def)
    then have "keys_present (fst (json_parse_array_loop strtod ?p1 (json_make_value JSON_ARRAY)))"
      by (rule "2.IH" [OF refl False]) (simp_all add: json_make_value_def)
    with False show ?thesis unfolding eq by (simp add: Let_def)
  qed
next
  case (3 strtod p a)
  let ?r = "json_parse_value strtod (json_skip_ws p)"
  let ?p1 = "json_skip_ws (snd ?r)"
  note eq = json_parse_array_loop.simps [of strtod p a]
  from "3.prems"(2) obtain xs where a: "a = JArray xs" by blast
  show ?case
  proof (cases "fst ?r")
    case None
    with "3.prems"(3) show ?thesis unfolding eq by (simp add: Let_def)
  next
    case (Some x)
    have fin: "latched (snd ?r) (snd (json_parse_array_loop strtod p a))"
    proof (cases "json_peek ?p1 = CHR '',''")
      case True
      have "latched (snd ?r) (json_expect ?p1 (CHR '',''))"
        by (intro latched_expect_trans latched_ws_trans latched_refl)
      then have "latched (snd ?r)
          (snd (json_parse_array_loop strtod (json_expect ?p1 (CHR '','')) (json_array_push a x)))"
        by (rule latched_trans [OF _ latched_parser(3)])
      with Some True show ?thesis unfolding eq by (simp add: Let_def)
    next
      case False
      have "latched (snd ?r) (json_expect (if json_peek ?p1 \<noteq> CHR '']''
          then json_error ?p1 ''Unterminated array'' else ?p1) (CHR '']''))"
        by (auto intro!: latched_expect_trans latched_error_trans latched_ws_trans)
      with Some False show ?thesis unfolding eq by (simp add: Let_def)
    qed
    with "3.prems"(1) have "error (snd ?r) = []" by (rule latched_empty [rotated])
    with "3.IH"(1) Some have x: "keys_present x" by simp
    with a "3.prems"(3) have push: "keys_present (json_array_push a x)" by simp
    show ?thesis
    proof (cases "json_peek ?p1 = CHR '',''")
      case True
      with "3.prems"(1) Some
      have "error (snd (json_parse_array_loop strtod (json_expect ?p1 (CHR '','')) (json_array_push a x))) = []"
        unfolding eq by (simp add: Let_def)
      then have "keys_present (fst (json_parse_array_loop strtod (json_expect ?p1 (CHR '',''))
          (json_array_push a x)))"
        by (rule "3.IH"(2) [OF refl Some refl True]) (use a x "3.prems"(3) in simp_all)
      with Some True show ?thesis unfolding eq by (simp add: Let_def)
    next
      case False
      with Some push show ?thesis unfolding eq by (simp add: Let_def)
    qed
  qed
next
  case (4 strtod p)
  let ?p1 = "json_skip_ws (json_expect p (CHR ''{''))"
  note eq = json_parse_object.simps [of strtod p]
  show ?case
  proof (cases "json_peek ?p1 = CHR ''}''")
    case True
    then show ?thesis unfolding eq by (simp add: Let_def json_make_value_def)
  next
    case False
    with "4.prems" have "error (snd (json_parse_object_loop strtod ?p1 (json_make_value JSON_OBJECT))) = []"
      unfolding eq by (simp add: Let_def)
    then have "keys_present (fst (json_parse_object_loop strtod ?p1 (json_make_value JSON_OBJECT)))"
      by (rule "4.IH" [OF refl False]) (simp_all add: json_make_value_def)
    with False show ?thesis unfolding eq by (simp add: Let_def)
  qed
next
  case (5 strtod p ob)
  let ?p1 = "json_skip_ws p"
  let ?k = "json_parse_string_literal ?p1"
  let ?p2 = "json_skip_ws (json_expect (json_skip_ws (snd ?k)) (CHR '':''))"
  let ?r = "json_parse_value strtod ?p2"
  let ?p3 = "json_skip_ws (snd ?r)"
  note eq = json_parse_object_loop.simps [of strtod p ob]
  from "5.prems"(2) obtain es where ob: "ob = JObject es" by blast
  show ?case
  proof (cases "json_peek ?p1 = DQUOTE")
    case False
    with "5.prems"(3) show ?thesis unfolding eq by (simp add: Let_def)
  next
    case q: True
    then have nq: "\<not> json_peek ?p1 \<noteq> DQUOTE" by simp
    show ?thesis
    proof (cases "fst ?r")
      case None
      with q "5.prems"(3) show ?thesis unfolding eq by (simp add: Let_def)
    next
      case (Some v)
      have fin: "latched (snd ?r) (snd (json_parse_object_loop strtod p ob))"
      proof (cases "json_peek ?p3 = CHR '',''")
        case True
        have "latched (snd ?r) (json_expect ?p3 (CHR '',''))"
          by (intro latched_expect_trans latched_ws_trans latched_refl)
        then have "latched (snd ?r)
            (snd (json_parse_object_loop strtod (json_expect ?p3 (CHR '','')) (json_object_put ob (fst ?k) v)))"
          by (rule latched_trans [OF _ latched_parser(5)])
        with q Some True show ?thesis unfolding eq by (simp add: Let_def)
      next
        case False
        have "latched (snd ?r) (json_expect (if json_peek ?p3 \<noteq> CHR ''}''
            then json_error ?p3 ''Unterminated object'' else ?p3) (CHR ''}''))"
          by (auto intro!: latched_expect_trans latched_error_trans latched_ws_trans)
        with q Some False show ?thesis unfolding eq by (simp add: Let_def)
      qed
      with "5.prems"(1) have er: "error (snd ?r) = []" by (rule latched_empty [rotated])
      with "5.IH"(1) [OF refl _ refl refl] q Some have v: "keys_present v" by simp
      have "latched (snd ?k) ?p2"
        by (intro latched_ws_trans latched_expect_trans latched_refl)
      then have "latched (snd ?k) (snd ?r)"
        by (rule latched_trans [OF _ latched_parser(1)])
      then have "error (snd ?k) = []" using er by (rule latched_empty)
      with json_parse_string_literal_None [of ?p1] obtain key where key: "fst ?k = Some key"
        by (cases "fst ?k") auto
      with ob v "5.prems"(3) have put: "keys_present (json_object_put ob (fst ?k) v)" by simp
      show ?thesis
      proof (cases "json_peek ?p3 = CHR '',''")
        case True
        with "5.prems"(1) q Some
        have "error (snd (json_parse_object_loop strtod (json_expect ?p3 (CHR '',''))
            (json_object_put ob (fst ?k) v))) = []"
          unfolding eq by (simp add: Let_def)
        then have "keys_present (fst (json_parse_object_loop strtod (json_expect ?p3 (CHR '',''))
            (json_object_put ob (fst ?k) v)))"
          by (rule "5.IH"(2) [OF refl nq refl refl refl Some refl True])
             (use ob key v "5.prems"(3) in simp_all)
        with q Some True show ?thesis unfolding eq by (simp add: Let_def)
      next
        case False
        with q Some put show ?thesis unfolding eq by (simp add: Let_def)
      qed
    qed
  qed
qed

lemma json_parse_keys_present:
  assumes "json_parse strtod s = Inr v"
  shows "keys_present v"
proof -
  let ?r = "json_parse_value strtod \<lparr>start = s, cur = s, error = []\<rparr>"
  from assms have "fst ?r = Some v" "error (snd ?r) = []"
    by (auto simp add: json_parse_def Let_def split: option.splits if_splits)
  with keys_parser(1) [of strtod "\<lparr>start = s, cur = s, error = []\<rparr>"] show ?thesis by simp
qed

text \<open>
  C3. \<^verbatim>\<open>json_object_put\<close> stores the new entry behind the last one and leaves every
  earlier entry as it is, also an entry with an equal key. \<^verbatim>\<open>json_object_get\<close> on an
  object whose keys are not NULL returns the value of the first entry in insertion order
  with an equal key, and the absent-marker when there is none or when the value is absent
  or no object; so a put of a key that is
  already there does not change what the lookup of that key returns. No object of a tree
  that \<^verbatim>\<open>json_parse\<close> returns has a NULL key, so on every object that it returns the
  lookup is the first match. Parsing \<^verbatim>\<open>{"a":1,"a":2}\<close> gives an object of two entries, and
  the lookup of \<^verbatim>\<open>a\<close> gives the Number made of the text \<^verbatim>\<open>1\<close>.
\<close>

theorem object_put_get:
  "json_object_put (JObject es) k v = JObject (es @ [(k, v)])
   \<and> ((\<forall>e\<in>set es. fst e \<noteq> None) \<longrightarrow>
        json_object_get (Some (JObject es)) q = Inr (first_match es q))
   \<and> ((\<forall>e\<in>set es. fst e \<noteq> None) \<and> first_match es q \<noteq> None \<longrightarrow>
        json_object_get (Some (json_object_put (JObject es) (Some q) v)) q
          = json_object_get (Some (JObject es)) q)
   \<and> ((\<forall>es. u \<noteq> Some (JObject es)) \<longrightarrow> json_object_get u q = Inr None)
   \<and> (json_parse strtod s = Inr w \<longrightarrow> keys_present w)
   \<and> (json_parse strtod s = Inr (JObject es) \<longrightarrow>
        json_object_get (Some (JObject es)) q = Inr (first_match es q))
   \<and> json_parse strtod ''{\"a\":1,\"a\":2}''
        = Inr (JObject [(Some ''a'', JNumber (strtod ''1'')), (Some ''a'', JNumber (strtod ''2''))])
   \<and> json_object_get
        (Some (JObject [(Some ''a'', JNumber (strtod ''1'')), (Some ''a'', JNumber (strtod ''2''))]))
        ''a'' = Inr (Some (JNumber (strtod ''1'')))"
proof -
  have get: "json_object_get (Some (JObject es)) q = Inr (first_match es q)"
    if "\<forall>e\<in>set es. fst e \<noteq> None"
    using that by (simp add: object_scan_first_match)
  have dup: "json_object_get (Some (json_object_put (JObject es) (Some q) v)) q
      = json_object_get (Some (JObject es)) q"
    if "\<forall>e\<in>set es. fst e \<noteq> None" "first_match es q \<noteq> None"
  proof -
    have "\<forall>e\<in>set (es @ [(Some q, v)]). fst e \<noteq> None" using that(1) by simp
    then have "object_scan (es @ [(Some q, v)]) q = Inr (first_match (es @ [(Some q, v)]) q)"
      by (rule object_scan_first_match)
    moreover have "first_match (es @ [(Some q, v)]) q = first_match es q"
      using that(2) by (auto simp add: first_match_append split: option.splits)
    ultimately show ?thesis using get [OF that(1)] by simp
  qed
  have parse: "json_parse strtod ''{\"a\":1,\"a\":2}''
      = Inr (JObject [(Some ''a'', JNumber (strtod ''1'')), (Some ''a'', JNumber (strtod ''2''))])"
    by (simp add: parser_eval)
  have other: "json_object_get u q = Inr None" if "\<forall>es. u \<noteq> Some (JObject es)"
  proof (cases u)
    case None
    then show ?thesis by simp
  next
    case (Some x)
    with that show ?thesis by (cases x) simp_all
  qed
  have keys: "keys_present w" if "json_parse strtod s = Inr w"
    using that by (rule json_parse_keys_present)
  have parsed: "json_object_get (Some (JObject es)) q = Inr (first_match es q)"
    if "json_parse strtod s = Inr (JObject es)"
  proof -
    from that have "keys_present (JObject es)" by (rule json_parse_keys_present)
    then have "\<forall>e\<in>set es. fst e \<noteq> None" by auto
    then show ?thesis by (rule get)
  qed
  show ?thesis using get dup other parse keys parsed by simp
qed

theorem object_put_get_witness:
  "json_object_get (Some (JObject [(Some ''a'', JNumber (1::real)), (Some ''b'', JNumber 2),
        (Some ''a'', JNumber 3)])) ''a'' = Inr (Some (JNumber 1))
   \<and> json_object_get (Some (json_object_put (JObject [(Some ''a'', JNumber (1::real))])
        (Some ''a'') (JNumber 2))) ''a'' = Inr (Some (JNumber 1))
   \<and> json_object_get (Some (JObject [(Some ''a'', JNumber (1::real))])) ''c'' = Inr None
   \<and> json_object_get (Some (JArray [JNumber (1::real)])) ''a'' = Inr None
   \<and> json_parse decimal_strtod ''{\"a\":1,\"a\":2}''
        = Inr (JObject [(Some ''a'', JNumber 1), (Some ''a'', JNumber 2)])
   \<and> keys_present (JObject [(Some ''a'', JNumber (1::real)), (Some ''a'', JNumber 2)])
   \<and> json_object_get (Some (JObject [(Some ''a'', JNumber (1::real)), (Some ''a'', JNumber 2)])) ''a''
        = Inr (Some (JNumber 1))"
proof -
  have d: "decimal_strtod ''1'' = 1" "decimal_strtod ''2'' = 2"
    by (simp_all add: decimal_eval)
  show ?thesis
    using object_put_get [where es = "[(Some ''a'', JNumber (1::real)), (Some ''b'', JNumber 2),
          (Some ''a'', JNumber 3)]" and q = "''a''" and strtod = decimal_strtod and s = "[]"]
      object_put_get [where es = "[(Some ''a'', JNumber (1::real))]" and v = "JNumber 2"
          and q = "''a''" and strtod = decimal_strtod and s = "[]"]
      object_put_get [where es = "[(Some ''a'', JNumber (1::real))]" and q = "''c''"
          and strtod = decimal_strtod and s = "[]" and u = "Some (JArray [JNumber (1::real)])"]
      object_put_get [where es = "[(Some ''a'', JNumber (1::real)), (Some ''a'', JNumber 2)]"
          and q = "''a''" and strtod = decimal_strtod and s = "''{\"a\":1,\"a\":2}''"
          and w = "JObject [(Some ''a'', JNumber (1::real)), (Some ''a'', JNumber 2)]"] d
    by (simp add: first_match_def)
qed

end
